theory Spec2Isabelle
  imports Complex_Main "HOL-Library.AList" "HOL-Library.Multiset"
begin

section \<open>Errors\<close>

text \<open>
  The exceptions that the placement code of \<^verbatim>\<open>schematic.py\<close> can raise, as values.
  \<open>KeyError\<close> is the plain dictionary error, \<open>Unattached\<close> the \<^verbatim>\<open>KeyError\<close> that
  \<^verbatim>\<open>Graph.analyse\<close> raises with its own message (the graph's name and the names of the
  nodes that the graph's \<^verbatim>\<open>__repr__\<close> prints), \<open>RecursionLimit\<close> the \<^verbatim>\<open>RuntimeError\<close> of the
  interpreter when the recursion limit is exceeded, \<open>Dodgy\<close> the \<^verbatim>\<open>RuntimeError\<close> that
  \<^verbatim>\<open>longest_forward_path\<close> raises in its place (with the graph's name), \<open>ValueError\<close> carries
  its message, \<open>AttributeError\<close> is an attribute read on \<^verbatim>\<open>None\<close> and \<open>TypeError\<close> is
  arithmetic on \<^verbatim>\<open>None\<close> or a call with the wrong number of arguments.
\<close>

datatype gname = Str string | Tup "string list"

datatype error =
    KeyError
  | Unattached string "gname list"
  | RecursionLimit
  | Dodgy string
  | ValueError string
  | AttributeError
  | TypeError

section \<open>Common nodes: \<^verbatim>\<open>class Cnodes(dict)\<close>\<close>

text \<open>
  A dictionary from node name to the tuple of the names that share its position. The
  dictionary is an association list read with \<^const>\<open>map_of\<close> and written with
  \<^const>\<open>AList.update\<close>. \<^verbatim>\<open>tuple(set(set1 + set2))\<close> removes the duplicates and leaves the
  order of the tuple to the hash table; the model keeps the order of \<^const>\<open>remdups\<close>, and
  the statements about groups are about the \<^const>\<open>set\<close> of a tuple.
\<close>

type_synonym cnodes = "(string \<times> string list) list"

definition Cnodes :: "string list \<Rightarrow> cnodes" where
  "Cnodes nodes = fold (\<lambda>node c. AList.update node [node] c) nodes []"

definition assign_all :: "string list \<Rightarrow> string list \<Rightarrow> cnodes \<Rightarrow> cnodes" where
  "assign_all ns newset c = fold (\<lambda>n c'. AList.update n newset c') ns c"

definition link :: "string \<Rightarrow> string \<Rightarrow> cnodes \<Rightarrow> error + cnodes" where
  "link n1 n2 c =
     (case map_of c n1 of
        None \<Rightarrow> Inl KeyError
      | Some set1 \<Rightarrow>
          (case map_of c n2 of
             None \<Rightarrow> Inl KeyError
           | Some set2 \<Rightarrow>
               (let newset = remdups (set1 @ set2);
                    c1 = assign_all set1 newset c
                in (case map_of c1 n2 of
                      None \<Rightarrow> Inl KeyError
                    | Some set2' \<Rightarrow> Inr (assign_all set2' newset c1)))))"

fun links :: "(string \<times> string) list \<Rightarrow> cnodes \<Rightarrow> error + cnodes" where
  "links [] c = Inr c"
| "links ((n1, n2) # ps) c =
     (case link n1 n2 c of Inl e \<Rightarrow> Inl e | Inr c' \<Rightarrow> links ps c')"

definition members :: "cnodes \<Rightarrow> string \<Rightarrow> string set" where
  "members c n = (case map_of c n of None \<Rightarrow> {} | Some t \<Rightarrow> set t)"

text \<open>
  The invariant of the table: every name is in its own tuple, and all the names of a tuple
  hold that same tuple. \<open>amerge\<close> is the effect of one \<^verbatim>\<open>link\<close> on the groups seen as sets,
  and \<open>part\<close> says that the groups partition the known names.
\<close>

definition cn_inv :: "cnodes \<Rightarrow> bool" where
  "cn_inv c = (\<forall>n t. map_of c n = Some t \<longrightarrow> n \<in> set t \<and> (\<forall>m\<in>set t. map_of c m = Some t))"

definition amerge :: "string \<times> string \<Rightarrow> (string \<Rightarrow> string set) \<Rightarrow> (string \<Rightarrow> string set)" where
  "amerge p A = (\<lambda>n. if n \<in> A (fst p) \<union> A (snd p) then A (fst p) \<union> A (snd p) else A n)"

definition part :: "string set \<Rightarrow> (string \<Rightarrow> string set) \<Rightarrow> bool" where
  "part N A = ((\<forall>n. (n \<in> N \<longrightarrow> n \<in> A n) \<and> (n \<notin> N \<longrightarrow> A n = {})) \<and> (\<forall>n m. m \<in> A n \<longrightarrow> A m = A n))"

section \<open>Graph nodes and edges: \<^verbatim>\<open>class Gedge\<close>, \<^verbatim>\<open>class Gnode\<close>, \<^verbatim>\<open>class Graph(dict)\<close>\<close>

text \<open>
  A graph node is named by a key of the dictionary: the string \<^verbatim>\<open>'start'\<close> or \<^verbatim>\<open>'end'\<close>, a
  tuple of \<^verbatim>\<open>cnodes\<close>, or the string of a name that \<^verbatim>\<open>cnodes\<close> does not know. A \<^verbatim>\<open>Gnode\<close> is
  stored under its \<^verbatim>\<open>name\<close>, so the key stands for the object and for its \<^verbatim>\<open>name\<close>; an edge
  refers to its two nodes by their keys. The sizes are floats in the source (\<^verbatim>\<open>Cpt.place\<close>
  computes them with numpy) and exact rationals here. The fields \<^verbatim>\<open>stretched\<close> of an edge and
  \<^verbatim>\<open>path\<close> of a node are written and never read, and are left out. The dictionary itself is
  the list of its keys, in the order of insertion, and the function from key to node;
  wherever the source iterates over a dictionary or a set, whose order Python leaves to the
  hash table, the model iterates in the order of insertion.
\<close>

record gedge =
  from_node :: gname
  to_node :: gname
  size_e :: rat
  stretch :: bool

record gnode =
  prev :: "gedge option"
  next_e :: "gedge option"
  dist_n :: rat
  known_dist :: "rat option"
  fedges :: "gedge list"
  redges :: "gedge list"

definition Gedge :: "gname \<Rightarrow> gname \<Rightarrow> rat \<Rightarrow> bool \<Rightarrow> gedge" where
  "Gedge f t sz st = \<lparr>from_node = f, to_node = t, size_e = sz, stretch = st\<rparr>"

definition Gnode :: gnode where
  "Gnode = \<lparr>prev = None, next_e = None, dist_n = 0, known_dist = None, fedges = [], redges = []\<rparr>"

record graph =
  cnodes :: cnodes
  name :: string
  keys :: "gname list"
  node :: "gname \<Rightarrow> gnode"

definition Graph :: "string \<Rightarrow> string list \<Rightarrow> graph" where
  "Graph nm nodes = \<lparr>cnodes = Cnodes nodes, name = nm, keys = [], node = (\<lambda>_. Gnode)\<rparr>"

definition upd :: "gname \<Rightarrow> (gnode \<Rightarrow> gnode) \<Rightarrow> graph \<Rightarrow> graph" where
  "upd k f g = g\<lparr>node := (node g)(k := f (node g k))\<rparr>"

text \<open>
  \<^verbatim>\<open>Graph.__getitem__\<close>: a key that is a name of \<^verbatim>\<open>cnodes\<close> is replaced by its tuple before the
  dictionary is read. The result is the key under which the node is stored.
\<close>

definition getitem :: "graph \<Rightarrow> gname \<Rightarrow> error + gname" where
  "getitem g key =
     (let key' = (case key of
                    Str s \<Rightarrow> (case map_of (cnodes g) s of Some t \<Rightarrow> Tup t | None \<Rightarrow> key)
                  | Tup t \<Rightarrow> key)
      in if key' \<in> set (keys g) then Inr key' else Inl KeyError)"

definition add_node :: "gname \<Rightarrow> graph \<Rightarrow> error + (graph \<times> gname)" where
  "add_node n g =
     (let g' = (if n \<in> set (keys g) then g
                else g\<lparr>keys := keys g @ [n], node := (node g)(n := Gnode)\<rparr>)
      in case getitem g' n of Inl e \<Rightarrow> Inl e | Inr k \<Rightarrow> Inr (g', k))"

definition add_edges :: "gname \<Rightarrow> gname \<Rightarrow> rat \<Rightarrow> bool \<Rightarrow> graph \<Rightarrow> graph" where
  "add_edges node1 node2 sz st g =
     (let g1 = upd node1 (\<lambda>x. x\<lparr>fedges := fedges x @ [Gedge node1 node2 sz st]\<rparr>) g
      in upd node2 (\<lambda>x. x\<lparr>redges := redges x @ [Gedge node2 node1 sz st]\<rparr>) g1)"

definition cnode_key :: "graph \<Rightarrow> string \<Rightarrow> gname" where
  "cnode_key g n = (case map_of (cnodes g) n of Some t \<Rightarrow> Tup t | None \<Rightarrow> Str n)"

definition add :: "string \<Rightarrow> string \<Rightarrow> rat \<Rightarrow> bool \<Rightarrow> graph \<Rightarrow> error + graph" where
  "add n1 n2 sz st g =
     (if sz = 0 then Inr g
      else
        (let (m1, m2, sz') = (if sz < 0 then (n2, n1, - sz) else (n1, n2, sz));
             k1 = cnode_key g m1;
             k2 = cnode_key g m2
         in case add_node k1 g of
              Inl e \<Rightarrow> Inl e
            | Inr (g1, node1) \<Rightarrow>
                (case add_node k2 g1 of
                   Inl e \<Rightarrow> Inl e
                 | Inr (g2, node2) \<Rightarrow> Inr (add_edges node1 node2 sz' st g2))))"

definition link_g :: "string \<Rightarrow> string \<Rightarrow> graph \<Rightarrow> error + graph" where
  "link_g n1 n2 g = (case link n1 n2 (cnodes g) of Inl e \<Rightarrow> Inl e | Inr c \<Rightarrow> Inr (g\<lparr>cnodes := c\<rparr>))"

definition start_end_edges :: "gname \<Rightarrow> gname \<Rightarrow> gname \<Rightarrow> graph \<Rightarrow> graph" where
  "start_end_edges start endn n g =
     (let g1 = (if redges (node g n) = [] then add_edges start n 0 False g else g)
      in if fedges (node g1 n) = [] then add_edges n endn 0 False g1 else g1)"

definition add_start_nodes :: "graph \<Rightarrow> error + graph" where
  "add_start_nodes g =
     (if Str ''start'' \<in> set (keys g) then Inr g
      else
        (let nodes = keys g
         in case add_node (Str ''start'') g of
              Inl e \<Rightarrow> Inl e
            | Inr (g1, start) \<Rightarrow>
                (case add_node (Str ''end'') g1 of
                   Inl e \<Rightarrow> Inl e
                 | Inr (g2, endn) \<Rightarrow> Inr (fold (start_end_edges start endn) nodes g2))))"

section \<open>Longest paths\<close>

text \<open>
  Both path functions first reset the working fields of every node. The nested function
  \<^verbatim>\<open>traverse\<close> recurses without a bound of its own; what stops it on a cycle is the
  recursion limit of the interpreter, which raises \<^verbatim>\<open>RuntimeError\<close>. The model counts the
  frames: \<open>d\<close> is the number of further nested calls that the interpreter still allows, and a
  call beyond it is \<open>RecursionLimit\<close>. \<open>traverse d n edges g\<close> runs the iterations \<open>edges\<close> that
  remain of the loop of the frame \<^verbatim>\<open>traverse(n)\<close>.
\<close>

definition reset :: "graph \<Rightarrow> graph" where
  "reset g = fold (\<lambda>k. upd k (\<lambda>x. x\<lparr>dist_n := - 1, prev := None, next_e := None\<rparr>)) (keys g) g"

definition relax :: "gname \<Rightarrow> gedge \<Rightarrow> rat \<Rightarrow> graph \<Rightarrow> graph" where
  "relax n edge dst g =
     upd n (\<lambda>x. x\<lparr>next_e := Some edge\<rparr>)
       (upd (to_node edge) (\<lambda>x. x\<lparr>dist_n := dst, prev := Some edge\<rparr>) g)"

fun traverse :: "nat \<Rightarrow> gname \<Rightarrow> gedge list \<Rightarrow> graph \<Rightarrow> error + graph" where
  "traverse d n [] g = Inr g"
| "traverse d n (edge # edges) g =
     (let next_node = to_node edge;
          dst = dist_n (node g n) + size_e edge
      in if dst > dist_n (node g next_node)
         then (let g1 = relax n edge dst g
               in case d of
                    0 \<Rightarrow> Inl RecursionLimit
                  | Suc d' \<Rightarrow>
                      (case traverse d' next_node (fedges (node g1 next_node)) g1 of
                         Inl e \<Rightarrow> Inl e
                       | Inr g2 \<Rightarrow> traverse d n edges g2))
         else traverse d n edges g)"

definition longest_forward_path :: "nat \<Rightarrow> gname \<Rightarrow> graph \<Rightarrow> error + graph" where
  "longest_forward_path rlim start g =
     (let g1 = upd start (\<lambda>x. x\<lparr>dist_n := 0\<rparr>) (reset g)
      in case (case rlim of
                 0 \<Rightarrow> Inl RecursionLimit
               | Suc d \<Rightarrow> traverse d start (fedges (node g1 start)) g1) of
           Inl RecursionLimit \<Rightarrow> Inl (Dodgy (name g))
         | Inl e \<Rightarrow> Inl e
         | Inr g2 \<Rightarrow> Inr g2)"

definition edges_of :: "bool \<Rightarrow> gnode \<Rightarrow> gedge list" where
  "edges_of forward x = (if forward then fedges x else redges x)"

fun traverse_known :: "bool \<Rightarrow> nat \<Rightarrow> gname \<Rightarrow> gedge list \<Rightarrow> graph \<Rightarrow> error + graph" where
  "traverse_known forward d n [] g = Inr g"
| "traverse_known forward d n (edge # edges) g =
     (let next_node = to_node edge;
          dst = dist_n (node g n) + size_e edge
      in if dst > dist_n (node g next_node)
         then (let g1 = relax n edge dst g
               in case d of
                    0 \<Rightarrow> Inl RecursionLimit
                  | Suc d' \<Rightarrow>
                      (if known_dist (node g1 next_node) \<noteq> None
                       then traverse_known forward d n edges g1
                       else (case traverse_known forward d' next_node
                                    (edges_of forward (node g1 next_node)) g1 of
                               Inl e \<Rightarrow> Inl e
                             | Inr g2 \<Rightarrow> traverse_known forward d n edges g2)))
         else traverse_known forward d n edges g)"

definition longest_path_to_known :: "nat \<Rightarrow> gname \<Rightarrow> bool \<Rightarrow> graph \<Rightarrow> error + graph" where
  "longest_path_to_known rlim start forward g =
     (let g1 = upd start (\<lambda>x. x\<lparr>dist_n := 0\<rparr>) (reset g)
      in case rlim of
           0 \<Rightarrow> Inl RecursionLimit
         | Suc d \<Rightarrow>
             (if known_dist (node g1 start) \<noteq> None then Inr g1
              else traverse_known forward d start (edges_of forward (node g1 start)) g1))"

section \<open>\<^verbatim>\<open>Graph.analyse\<close>\<close>

text \<open>
  The walk back from \<^verbatim>\<open>'end'\<close> along the \<^verbatim>\<open>prev\<close> edges and the walks along the \<^verbatim>\<open>next\<close>
  edges are \<^verbatim>\<open>while\<close> loops with no bound; a loop that does not end is the value \<open>None\<close>.
  \<^verbatim>\<open>unknown\<close> is a set of keys in the source and a list without the discarded keys here.
\<close>

partial_function (option) walk_back ::
  "gname \<Rightarrow> gname list \<Rightarrow> graph \<Rightarrow> (error + graph \<times> gname list) option" where
  "walk_back n unknown g =
     (if n = Str ''start'' then Some (Inr (g, unknown))
      else
        (let unknown' = removeAll n unknown;
             g' = upd n (\<lambda>x. x\<lparr>known_dist := Some (dist_n x)\<rparr>) g
         in case prev (node g' n) of
              None \<Rightarrow> Some (Inl AttributeError)
            | Some e \<Rightarrow> walk_back (from_node e) unknown' g'))"

definition assign_fixed :: "gname \<Rightarrow> gname list \<Rightarrow> graph \<Rightarrow> graph \<times> bool" where
  "assign_fixed n unknown g =
     (case find (\<lambda>edge. \<not> stretch edge \<and> to_node edge \<notin> set unknown \<and> to_node edge \<noteq> Str ''end'')
             (fedges (node g n)) of
        Some edge \<Rightarrow>
          (upd n (\<lambda>x. x\<lparr>known_dist := Some (dist_n (node g (to_node edge)) - size_e edge)\<rparr>) g, True)
      | None \<Rightarrow>
          (case find (\<lambda>edge. \<not> stretch edge \<and> from_node edge \<notin> set unknown \<and>
                              from_node edge \<noteq> Str ''start'')
                  (redges (node g n)) of
             Some edge \<Rightarrow>
               (upd n (\<lambda>x. x\<lparr>known_dist := Some (dist_n (node g (from_node edge)) + size_e edge)\<rparr>) g,
                True)
           | None \<Rightarrow> (g, False)))"

text \<open>
  One run of the \<^verbatim>\<open>for n in unknown\<close> loop inside the \<^verbatim>\<open>while changes\<close> loop: the key that was
  assigned (the loop breaks there), or \<open>None\<close> when the loop ran to its end.
\<close>

fun fixed_pass :: "gname list \<Rightarrow> gname list \<Rightarrow> graph \<Rightarrow> error + graph \<times> gname option" where
  "fixed_pass [] unknown g = Inr (g, None)"
| "fixed_pass (n # ns) unknown g =
     (case getitem g n of
        Inl e \<Rightarrow> Inl e
      | Inr k \<Rightarrow>
          (case assign_fixed k unknown g of
             (g', True) \<Rightarrow> Inr (g', Some n)
           | (g', False) \<Rightarrow> fixed_pass ns unknown g'))"

lemma fixed_pass_mem: "fixed_pass ns unknown g = Inr (g', Some n) \<Longrightarrow> n \<in> set ns"
  by (induction ns arbitrary: g) (auto split: sum.splits prod.splits bool.splits)

function fixed_loop :: "gname list \<Rightarrow> graph \<Rightarrow> error + graph \<times> gname list" where
  "fixed_loop unknown g =
     (if unknown = [] then Inr (g, unknown)
      else (case fixed_pass unknown unknown g of
              Inl e \<Rightarrow> Inl e
            | Inr (g', None) \<Rightarrow> Inr (g', unknown)
            | Inr (g', Some n) \<Rightarrow> fixed_loop (removeAll n unknown) g'))"
  by pat_completeness auto
termination
proof (relation "measure (\<lambda>(unknown, g). length unknown)")
  show "wf (measure (\<lambda>(unknown, g). length unknown))" by simp
next
  fix unknown :: "gname list" and g x2 x y n
  assume "fixed_pass unknown unknown g = Inr x2" "(x, y) = x2" "y = Some n"
  then have "n \<in> set unknown" using fixed_pass_mem by metis
  then have "length (removeAll n unknown) < length unknown"
    by (simp add: length_removeAll_less)
  then show "((removeAll n unknown, x), unknown, g) \<in> measure (\<lambda>(unknown, g). length unknown)"
    by simp
qed

declare fixed_loop.simps [simp del]

partial_function (option) follow ::
  "graph \<Rightarrow> gname \<Rightarrow> nat \<Rightarrow> rat \<Rightarrow> (gname \<times> nat \<times> rat) option" where
  "follow g to_n stretches dst =
     (case next_e (node g to_n) of
        None \<Rightarrow> Some (to_n, stretches, dst)
      | Some edge \<Rightarrow>
          follow g (to_node edge) (if stretch edge then stretches + 1 else stretches)
            (dst + size_e edge))"

text \<open>
  The assignment at the end of the body of the \<^verbatim>\<open>for n in unknown\<close> loop of the stretch
  stage, from the ends of the two walks. Arithmetic on a \<^verbatim>\<open>known_dist\<close> that is \<^verbatim>\<open>None\<close> is a
  \<^verbatim>\<open>TypeError\<close>. The division is the division of floats.
\<close>

definition resolve ::
  "gname \<Rightarrow> rat option \<Rightarrow> rat \<Rightarrow> nat \<Rightarrow> gname \<Rightarrow> rat option \<Rightarrow> rat \<Rightarrow> nat \<Rightarrow> error + rat" where
  "resolve to_n to_known fdist fstretches from_n from_known rdist rstretches =
     (if from_n = Str ''start'' then
        (case to_known of None \<Rightarrow> Inl TypeError | Some t \<Rightarrow> Inr (t - fdist))
      else if to_n = Str ''end'' then
        (case from_known of None \<Rightarrow> Inl TypeError | Some f \<Rightarrow> Inr (f + rdist))
      else
        (case to_known of
           None \<Rightarrow> Inl TypeError
         | Some t \<Rightarrow>
             (case from_known of
                None \<Rightarrow> Inl TypeError
              | Some f \<Rightarrow>
                  (let separation = t - f;
                       extent = fdist + rdist
                   in if extent > separation
                      then Inl (ValueError ''Inconsistent graph, component will not fit'')
                      else if rstretches = 0 then Inr (f + rdist)
                      else if fstretches = 0 then Inr (t - fdist)
                      else Inr (f + rdist +
                                (separation - extent) / of_nat (fstretches + rstretches) *
                                of_nat rstretches)))))"

definition stretch_node :: "nat \<Rightarrow> gname \<Rightarrow> graph \<Rightarrow> (error + graph) option" where
  "stretch_node rlim n g =
     (case getitem g n of
        Inl e \<Rightarrow> Some (Inl e)
      | Inr k \<Rightarrow>
          (case longest_path_to_known rlim k True g of
             Inl e \<Rightarrow> Some (Inl e)
           | Inr g1 \<Rightarrow>
               (case follow g1 k 0 0 of
                  None \<Rightarrow> None
                | Some (to_n, fstretches, fdist) \<Rightarrow>
                    (case longest_path_to_known rlim k False g1 of
                       Inl e \<Rightarrow> Some (Inl e)
                     | Inr g2 \<Rightarrow>
                         (case follow g2 k 0 0 of
                            None \<Rightarrow> None
                          | Some (from_n, rstretches, rdist) \<Rightarrow>
                              (case resolve to_n (known_dist (node g2 to_n)) fdist fstretches
                                      from_n (known_dist (node g2 from_n)) rdist rstretches of
                                 Inl e \<Rightarrow> Some (Inl e)
                               | Inr v \<Rightarrow>
                                   Some (Inr (upd k (\<lambda>x. x\<lparr>known_dist := Some v\<rparr>) g2))))))))"

fun stretch_all :: "nat \<Rightarrow> gname list \<Rightarrow> graph \<Rightarrow> (error + graph) option" where
  "stretch_all rlim [] g = Some (Inr g)"
| "stretch_all rlim (n # ns) g =
     (case stretch_node rlim n g of
        None \<Rightarrow> None
      | Some (Inl e) \<Rightarrow> Some (Inl e)
      | Some (Inr g') \<Rightarrow> stretch_all rlim ns g')"

text \<open>
  The last step: the position of every name of \<^verbatim>\<open>cnodes\<close> is the \<^verbatim>\<open>known_dist\<close> of the node
  stored under its tuple. A tuple that is no key of the graph is a \<^verbatim>\<open>KeyError\<close>, raised again
  with the name of the graph and the text of the graph, which lists the nodes that the
  graph holds. The positions are a dictionary in the source and an association list here.
\<close>

type_synonym positions = "(string \<times> rat option) list"

definition extract_positions :: "graph \<Rightarrow> error + positions \<times> rat option" where
  "extract_positions g =
     (if \<forall>(n, t) \<in> set (cnodes g). Tup t \<in> set (keys g)
      then (case getitem g (Str ''end'') of
              Inl e \<Rightarrow> Inl e
            | Inr endn \<Rightarrow>
                Inr (map (\<lambda>(n, t). (n, known_dist (node g (Tup t)))) (cnodes g),
                     known_dist (node g endn)))
      else Inl (Unattached (name g) (keys g)))"

definition analyse ::
  "nat \<Rightarrow> nat option \<Rightarrow> graph \<Rightarrow> (error + (positions \<times> rat option) option) option" where
  "analyse rlim stage g0 =
     (case add_start_nodes g0 of
        Inl e \<Rightarrow> Some (Inl e)
      | Inr g \<Rightarrow>
          (let unknown = filter (\<lambda>k. k \<noteq> Str ''start'' \<and> k \<noteq> Str ''end'') (keys g)
           in if unknown = []
              then Some (Inr (Some (map (\<lambda>(n, t). (n, Some 0)) (cnodes g), Some 0)))
              else
                (case getitem g (Str ''start'') of
                   Inl e \<Rightarrow> Some (Inl e)
                 | Inr start \<Rightarrow>
                (case longest_forward_path rlim start g of
                   Inl e \<Rightarrow> Some (Inl e)
                 | Inr g1 \<Rightarrow>
                (case getitem g1 (Str ''end'') of
                   Inl e \<Rightarrow> Some (Inl e)
                 | Inr endn \<Rightarrow>
                (case walk_back endn unknown g1 of
                   None \<Rightarrow> None
                 | Some (Inl e) \<Rightarrow> Some (Inl e)
                 | Some (Inr (g2, unknown2)) \<Rightarrow>
                     if stage = Some 1 then Some (Inr None)
                     else
                (case fixed_loop unknown2 g2 of
                   Inl e \<Rightarrow> Some (Inl e)
                 | Inr (g3, unknown3) \<Rightarrow>
                     if stage = Some 2 then Some (Inr None)
                     else
                (case stretch_all rlim unknown3 g3 of
                   None \<Rightarrow> None
                 | Some (Inl e) \<Rightarrow> Some (Inl e)
                 | Some (Inr g4) \<Rightarrow>
                     (case extract_positions g4 of
                        Inl e \<Rightarrow> Some (Inl e)
                      | Inr r \<Rightarrow> Some (Inr (Some r)))))))))))"

section \<open>The calls of a client, and \<^verbatim>\<open>Cpt.place\<close>\<close>

text \<open>
  \<^verbatim>\<open>Schematic._positions_calculate\<close> builds one graph for each axis: \<^verbatim>\<open>Graph(name, nodes)\<close>, then
  the \<^verbatim>\<open>link\<close> calls of all components, then their \<^verbatim>\<open>add\<close> calls, then \<^verbatim>\<open>analyse()\<close>.
  \<open>layout\<close> is that sequence for one graph, with the arguments of the calls given.
\<close>

fun adds :: "(string \<times> string \<times> rat \<times> bool) list \<Rightarrow> graph \<Rightarrow> error + graph" where
  "adds [] g = Inr g"
| "adds ((n1, n2, sz, st) # es) g =
     (case add n1 n2 sz st g of Inl e \<Rightarrow> Inl e | Inr g' \<Rightarrow> adds es g')"

definition build ::
  "string \<Rightarrow> string list \<Rightarrow> (string \<times> string) list \<Rightarrow> (string \<times> string \<times> rat \<times> bool) list \<Rightarrow>
   error + graph" where
  "build nm nodes ls es =
     (case links ls (Cnodes nodes) of
        Inl e \<Rightarrow> Inl e
      | Inr c \<Rightarrow> adds es ((Graph nm nodes)\<lparr>cnodes := c\<rparr>))"

definition layout ::
  "nat \<Rightarrow> string \<Rightarrow> string list \<Rightarrow> (string \<times> string) list \<Rightarrow> (string \<times> string \<times> rat \<times> bool) list \<Rightarrow>
   (error + (positions \<times> rat option) option) option" where
  "layout rlim nm nodes ls es =
     (case build nm nodes ls es of
        Inl e \<Rightarrow> Some (Inl e)
      | Inr g \<Rightarrow> analyse rlim None g)"

text \<open>
  A component, as far as \<^verbatim>\<open>Cpt.place\<close> reads it: the names of its nodes, each with its
  value on the axis (\<^verbatim>\<open>dvnodes\<close> and \<^verbatim>\<open>vals\<close>, index by index), its \<^verbatim>\<open>size\<close> and its \<^verbatim>\<open>stretch\<close>.
  \<^verbatim>\<open>np.argsort(vals)[::-1]\<close> is the order of decreasing value.

  \<^verbatim>\<open>Cpt.place\<close> calls \<^verbatim>\<open>graphs.add(self, n1.name, n2.name, value, self.stretch)\<close>, five
  arguments, and \<^verbatim>\<open>Graph.add(self, n1, n2, size, stretch)\<close> takes four: the interpreter raises
  \<^verbatim>\<open>TypeError\<close> at the call, before the body of \<^verbatim>\<open>Graph.add\<close> runs. \<open>add_call5\<close> is that call.
\<close>

record cpt =
  points :: "(string \<times> rat) list"
  size_c :: rat
  stretch_c :: bool

definition add_call5 :: "cpt \<Rightarrow> string \<Rightarrow> string \<Rightarrow> rat \<Rightarrow> bool \<Rightarrow> graph \<Rightarrow> error + graph" where
  "add_call5 c n1 n2 v st g = Inl TypeError"

fun insert_desc :: "string \<times> rat \<Rightarrow> (string \<times> rat) list \<Rightarrow> (string \<times> rat) list" where
  "insert_desc p [] = [p]"
| "insert_desc p (q # qs) = (if snd q < snd p then p # q # qs else q # insert_desc p qs)"

definition argsort_desc :: "(string \<times> rat) list \<Rightarrow> (string \<times> rat) list" where
  "argsort_desc ps = foldr insert_desc ps []"

fun place_pairs :: "cpt \<Rightarrow> (string \<times> rat) list \<Rightarrow> graph \<Rightarrow> error + graph" where
  "place_pairs c (p1 # p2 # ps) g =
     (let v = (snd p2 - snd p1) * size_c c
      in case add_call5 c (fst p1) (fst p2) v (stretch_c c) g of
           Inl e \<Rightarrow> Inl e
         | Inr g' \<Rightarrow> place_pairs c (p2 # ps) g')"
| "place_pairs c ps g = Inr g"

definition place :: "cpt \<Rightarrow> graph \<Rightarrow> error + graph" where
  "place c g = place_pairs c (argsort_desc (points c)) g"

fun places :: "cpt list \<Rightarrow> graph \<Rightarrow> error + graph" where
  "places [] g = Inr g"
| "places (c # cs) g = (case place c g of Inl e \<Rightarrow> Inl e | Inr g' \<Rightarrow> places cs g')"


text \<open>
  \<open>same g g'\<close>: the two graphs have the same keys, common nodes and name, and every node has
  the same \<^verbatim>\<open>known_dist\<close>; the path functions change nothing else than the working fields.
\<close>

definition same :: "graph \<Rightarrow> graph \<Rightarrow> bool" where
  "same g g' = (keys g' = keys g \<and> cnodes g' = cnodes g \<and> name g' = name g \<and>
                (\<forall>k. known_dist (node g' k) = known_dist (node g k)))"

text \<open>
  \<open>resolved g unknown\<close>: every node of the graph that is named by a tuple and is not in
  \<^verbatim>\<open>unknown\<close> has a \<^verbatim>\<open>known_dist\<close>. \<open>frame g g'\<close>: the two graphs have the same keys, common
  nodes and name.
\<close>

definition resolved :: "graph \<Rightarrow> gname list \<Rightarrow> bool" where
  "resolved g unknown =
     (\<forall>k\<in>set (keys g). (\<exists>t. k = Tup t) \<longrightarrow> k \<notin> set unknown \<longrightarrow> known_dist (node g k) \<noteq> None)"

definition frame :: "graph \<Rightarrow> graph \<Rightarrow> bool" where
  "frame g g' = (keys g' = keys g \<and> cnodes g' = cnodes g \<and> name g' = name g)"


section \<open>Properties of the common nodes\<close>


lemma map_of_assign_all:
  "map_of (assign_all ns v c) k = (if k \<in> set ns then Some v else map_of c k)"
  unfolding assign_all_def
  by (induction ns arbitrary: c) (auto simp: update_conv')

lemma map_of_Cnodes: "map_of (Cnodes nodes) n = (if n \<in> set nodes then Some [n] else None)"
proof -
  have "map_of (fold (\<lambda>node c. AList.update node [node] c) ns c) n =
        (if n \<in> set ns then Some [n] else map_of c n)" for ns and c :: cnodes
    by (induction ns arbitrary: c) (auto simp: update_conv')
  from this[of nodes "[]"] show ?thesis by (simp add: Cnodes_def cong: if_cong)
qed

lemma cn_inv_Cnodes: "cn_inv (Cnodes nodes)"
  by (simp add: cn_inv_def map_of_Cnodes split: if_splits)


lemma cn_invD1: "cn_inv c \<Longrightarrow> map_of c n = Some t \<Longrightarrow> n \<in> set t"
  unfolding cn_inv_def by blast

lemma cn_invD2: "cn_inv c \<Longrightarrow> map_of c n = Some t \<Longrightarrow> m \<in> set t \<Longrightarrow> map_of c m = Some t"
  unfolding cn_inv_def by blast

lemma link_unfold:
  "map_of c a = Some s1 \<Longrightarrow> map_of c b = Some s2 \<Longrightarrow>
   link a b c = Inr (assign_all (if b \<in> set s1 then remdups (s1 @ s2) else s2) (remdups (s1 @ s2))
                        (assign_all s1 (remdups (s1 @ s2)) c))"
  by (simp add: link_def Let_def map_of_assign_all)


lemma link_map_of:
  assumes "cn_inv c" "map_of c a = Some s1" "map_of c b = Some s2"
  shows "\<exists>c'. link a b c = Inr c' \<and>
     (\<forall>k. map_of c' k = (if k \<in> set s1 \<union> set s2 then Some (remdups (s1 @ s2)) else map_of c k))"
proof (cases "b \<in> set s1")
  case True
  then have "map_of c b = Some s1" using assms cn_invD2 by blast
  then have e: "s2 = s1" using assms by simp
  show ?thesis unfolding link_unfold[OF assms(2,3)] e using True by (simp add: map_of_assign_all)
next
  case False
  show ?thesis unfolding link_unfold[OF assms(2,3)] using False by (simp add: map_of_assign_all)
qed

lemma members_link:
  assumes "cn_inv c" "a \<in> dom (map_of c)" "b \<in> dom (map_of c)"
  shows "\<exists>c'. link a b c = Inr c' \<and> cn_inv c' \<and> dom (map_of c') = dom (map_of c) \<and> members c' = amerge (a, b) (members c)"
proof -
  from assms obtain s1 s2 where s: "map_of c a = Some s1" "map_of c b = Some s2" by auto
  from link_map_of[OF assms(1) s] obtain c' where c': "link a b c = Inr c'"
    and m: "\<And>k. map_of c' k = (if k \<in> set s1 \<union> set s2 then Some (remdups (s1 @ s2)) else map_of c k)"
    by auto
  have a1: "a \<in> set s1" and b2: "b \<in> set s2" using s assms(1) cn_invD1 by blast+
  have sub: "\<And>m. m \<in> set s1 \<Longrightarrow> map_of c m = Some s1" "\<And>m. m \<in> set s2 \<Longrightarrow> map_of c m = Some s2"
    using s assms(1) cn_invD2 by blast+
  have inv: "cn_inv c'"
    unfolding cn_inv_def
  proof (intro allI impI conjI ballI)
    fix n t assume nt: "map_of c' n = Some t"
    show "n \<in> set t" using nt cn_invD1[OF assms(1), of n t] unfolding m by (auto split: if_splits)
    fix k assume k: "k \<in> set t"
    show "map_of c' k = Some t"
    proof (cases "n \<in> set s1 \<union> set s2")
      case True
      then have "t = remdups (s1 @ s2)" using nt unfolding m by simp
      then show ?thesis using k unfolding m by auto
    next
      case False
      then have nt': "map_of c n = Some t" using nt unfolding m by simp
      then have kt: "map_of c k = Some t" using cn_invD2[OF assms(1)] k by blast
      have "k \<notin> set s1 \<union> set s2"
      proof
        assume "k \<in> set s1 \<union> set s2"
        then have "t = s1 \<or> t = s2" using sub kt by auto
        moreover have "n \<in> set t" using cn_invD1[OF assms(1) nt'] .
        ultimately show False using False by auto
      qed
      then show ?thesis using kt unfolding m by simp
    qed
  qed
  have d: "dom (map_of c') = dom (map_of c)"
    using sub by (auto simp: m dom_def split: if_splits)
  have mm: "members c' = amerge (a, b) (members c)"
    by (auto simp: fun_eq_iff members_def amerge_def m s split: option.splits)
  show ?thesis using c' inv d mm by blast
qed

lemma members_Some: "map_of c n = Some t \<Longrightarrow> members c n = set t"
  by (simp add: members_def)

lemma members_None: "map_of c n = None \<Longrightarrow> members c n = {}"
  by (simp add: members_def)

lemma part_members: "cn_inv c \<Longrightarrow> part (dom (map_of c)) (members c)"
  unfolding part_def
proof (intro conjI allI impI)
  fix n assume "cn_inv c" "n \<in> dom (map_of c)"
  then show "n \<in> members c n" using cn_invD1 members_Some by fastforce
next
  fix n assume "n \<notin> dom (map_of c)"
  then show "members c n = {}" by (simp add: members_None domIff)
next
  fix n m assume c: "cn_inv c" and m: "m \<in> members c n"
  then obtain t where t: "map_of c n = Some t" by (cases "map_of c n") (auto simp: members_def)
  then have "m \<in> set t" using m by (simp add: members_Some)
  then have "map_of c m = Some t" using cn_invD2[OF c t] by blast
  then show "members c m = members c n" using t by (simp add: members_Some)
qed

lemma part_amerge:
  assumes "part N A" "fst p \<in> N" "snd p \<in> N"
  shows "part N (amerge p A)"
proof -
  have r: "\<And>n. n \<in> N \<Longrightarrow> n \<in> A n" and e: "\<And>n. n \<notin> N \<Longrightarrow> A n = {}"
    and t: "\<And>n m. m \<in> A n \<Longrightarrow> A m = A n"
    using assms(1) unfolding part_def by blast+
  show ?thesis unfolding part_def
  proof (intro conjI allI impI)
    fix n assume "n \<in> N" then show "n \<in> amerge p A n" using r by (simp add: amerge_def)
  next
    fix n assume n: "n \<notin> N"
    have "n \<notin> A (fst p) \<union> A (snd p)"
    proof
      assume "n \<in> A (fst p) \<union> A (snd p)"
      then have "A n = A (fst p) \<or> A n = A (snd p)" using t by blast
      then show False using e[OF n] r assms(2,3) by blast
    qed
    then show "amerge p A n = {}" using e[OF n] by (simp add: amerge_def)
  next
    fix n m assume m: "m \<in> amerge p A n"
    show "amerge p A m = amerge p A n"
    proof (cases "n \<in> A (fst p) \<union> A (snd p)")
      case True
      then show ?thesis using m by (simp add: amerge_def)
    next
      case False
      then have mn: "m \<in> A n" using m by (simp add: amerge_def)
      then have eq: "A m = A n" using t by blast
      have "m \<notin> A (fst p) \<union> A (snd p)"
      proof
        assume "m \<in> A (fst p) \<union> A (snd p)"
        then have "A m = A (fst p) \<or> A m = A (snd p)" using t by blast
        moreover have "n \<in> A n" using mn e r by (cases "n \<in> N") auto
        ultimately show False using False eq by auto
      qed
      then show ?thesis using False eq by (simp add: amerge_def)
    qed
  qed
qed


lemma amerge_absorb:
  assumes t: "\<And>n m. m \<in> A n \<Longrightarrow> A m = A n"
  shows "amerge (c, d) A y \<union> (A c \<union> A d) = A y \<union> (A c \<union> A d)"
proof (cases "y \<in> A c \<union> A d")
  case True
  then have "A y = A c \<or> A y = A d" using t by blast
  then have "A y \<subseteq> A c \<union> A d" by blast
  then show ?thesis using True unfolding amerge_def fst_conv snd_conv by (simp only: if_True) blast
next
  case False
  then show ?thesis unfolding amerge_def fst_conv snd_conv by (simp only: if_False)
qed

lemma amerge_hit:
  "y \<in> A c \<union> A d \<Longrightarrow> amerge (c, d) A y = A c \<union> A d"
  unfolding amerge_def fst_conv snd_conv by (simp only: if_True)

lemma amerge_union:
  assumes t: "\<And>n m. m \<in> A n \<Longrightarrow> A m = A n"
    and r: "a \<in> A a" "b \<in> A b"
    and x: "x \<in> A a \<union> A b" "x \<in> A c \<union> A d"
  shows "amerge (c, d) A a \<union> amerge (c, d) A b = A a \<union> A b \<union> (A c \<union> A d)"
proof -
  have "A x = A a \<or> A x = A b" using t x(1) by blast
  then have "a \<in> A x \<or> b \<in> A x" using r by blast
  moreover have "A x = A c \<or> A x = A d" using t x(2) by blast
  then have "A x \<subseteq> A c \<union> A d" by blast
  ultimately have "a \<in> A c \<union> A d \<or> b \<in> A c \<union> A d" by blast
  then have "amerge (c, d) A a = A c \<union> A d \<or> amerge (c, d) A b = A c \<union> A d"
    using amerge_hit[of a A c d] amerge_hit[of b A c d] by blast
  then have "A c \<union> A d \<subseteq> amerge (c, d) A a \<union> amerge (c, d) A b" by blast
  then have "amerge (c, d) A a \<union> amerge (c, d) A b =
     (amerge (c, d) A a \<union> (A c \<union> A d)) \<union> (amerge (c, d) A b \<union> (A c \<union> A d))" by blast
  also have "\<dots> = (A a \<union> (A c \<union> A d)) \<union> (A b \<union> (A c \<union> A d))"
    by (simp only: amerge_absorb[of A, OF t])
  also have "\<dots> = A a \<union> A b \<union> (A c \<union> A d)" by blast
  finally show ?thesis .
qed

lemma amerge_commute:
  assumes "part N A" "fst p \<in> N" "snd p \<in> N" "fst q \<in> N" "snd q \<in> N"
  shows "amerge p (amerge q A) = amerge q (amerge p A)"
proof -
  obtain a b c d where p: "p = (a, b)" and q: "q = (c, d)" by (cases p, cases q) auto
  have r: "a \<in> A a" "b \<in> A b" "c \<in> A c" "d \<in> A d"
    using assms unfolding part_def p q by auto
  have t: "\<And>n m. m \<in> A n \<Longrightarrow> A m = A n"
    using assms(1) unfolding part_def by blast
  show ?thesis
  proof (cases "(A a \<union> A b) \<inter> (A c \<union> A d) = {}")
    case True
    have n: "a \<notin> A c \<union> A d" "b \<notin> A c \<union> A d" "c \<notin> A a \<union> A b" "d \<notin> A a \<union> A b"
      using True r by blast+
    have 1: "amerge (c, d) A a = A a" "amerge (c, d) A b = A b"
      "amerge (a, b) A c = A c" "amerge (a, b) A d = A d"
      using n unfolding amerge_def fst_conv snd_conv by (simp_all only: if_False)
    show ?thesis unfolding p q
    proof (rule ext)
      fix n
      have l: "amerge (a, b) (amerge (c, d) A) n =
            (if n \<in> A a \<union> A b then A a \<union> A b else amerge (c, d) A n)"
        unfolding amerge_def[of "(a, b)"] fst_conv snd_conv 1 ..
      have rr: "amerge (c, d) (amerge (a, b) A) n =
            (if n \<in> A c \<union> A d then A c \<union> A d else amerge (a, b) A n)"
        unfolding amerge_def[of "(c, d)"] fst_conv snd_conv 1 ..
      show "amerge (a, b) (amerge (c, d) A) n = amerge (c, d) (amerge (a, b) A) n"
      proof (cases "n \<in> A a \<union> A b")
        case inU: True
        then have nW: "n \<notin> A c \<union> A d" using True by blast
        have "amerge (c, d) (amerge (a, b) A) n = amerge (a, b) A n"
          unfolding rr using nW by (simp only: if_False)
        also have "\<dots> = A a \<union> A b" using amerge_hit[OF inU] .
        finally show ?thesis unfolding l using inU by (simp only: if_True)
      next
        case nU: False
        have e: "amerge (a, b) A n = A n"
          unfolding amerge_def fst_conv snd_conv using nU by (simp only: if_False)
        have "amerge (a, b) (amerge (c, d) A) n = amerge (c, d) A n"
          unfolding l using nU by (simp only: if_False)
        also have "\<dots> = (if n \<in> A c \<union> A d then A c \<union> A d else A n)"
          unfolding amerge_def fst_conv snd_conv ..
        finally show ?thesis unfolding rr e .
      qed
    qed
  next
    case False
    then obtain x where x: "x \<in> A a \<union> A b" "x \<in> A c \<union> A d" by blast
    have 1: "(amerge (c, d) A) a \<union> (amerge (c, d) A) b = A a \<union> A b \<union> (A c \<union> A d)"
      using amerge_union[of A a b x c d, OF t r(1,2) x] .
    have 2: "(amerge (a, b) A) c \<union> (amerge (a, b) A) d = A c \<union> A d \<union> (A a \<union> A b)"
      using amerge_union[of A c d x a b, OF t r(3,4) x(2,1)] .
    show ?thesis unfolding p q
    proof (rule ext)
      fix n
      have l: "amerge (a, b) (amerge (c, d) A) n =
            (if n \<in> A a \<union> A b \<union> (A c \<union> A d) then A a \<union> A b \<union> (A c \<union> A d) else amerge (c, d) A n)"
        unfolding amerge_def[of "(a, b)"] fst_conv snd_conv 1 ..
      have rr: "amerge (c, d) (amerge (a, b) A) n =
            (if n \<in> A c \<union> A d \<union> (A a \<union> A b) then A c \<union> A d \<union> (A a \<union> A b) else amerge (a, b) A n)"
        unfolding amerge_def[of "(c, d)"] fst_conv snd_conv 2 ..
      show "amerge (a, b) (amerge (c, d) A) n = amerge (c, d) (amerge (a, b) A) n"
      proof (cases "n \<in> A a \<union> A b \<union> (A c \<union> A d)")
        case True
        then have "n \<in> A c \<union> A d \<union> (A a \<union> A b)" by blast
        then show ?thesis unfolding l rr using True by (simp only: if_True) blast
      next
        case False
        then have f2: "n \<notin> A c \<union> A d \<union> (A a \<union> A b)" "n \<notin> A a \<union> A b" "n \<notin> A c \<union> A d" by blast+
        have e1: "amerge (a, b) A n = A n"
          unfolding amerge_def fst_conv snd_conv using f2(2) by (simp only: if_False)
        have e2: "amerge (c, d) A n = A n"
          unfolding amerge_def fst_conv snd_conv using f2(3) by (simp only: if_False)
        show ?thesis unfolding l rr e1 e2 using False f2(1) by (simp only: if_False)
      qed
    qed
  qed
qed


lemma dom_Cnodes: "dom (map_of (Cnodes nodes)) = set nodes"
  by (auto simp: dom_def map_of_Cnodes)

lemma links_members:
  assumes "cn_inv c" "\<forall>p\<in>set ps. fst p \<in> dom (map_of c) \<and> snd p \<in> dom (map_of c)"
  shows "\<exists>c'. links ps c = Inr c' \<and> cn_inv c' \<and> dom (map_of c') = dom (map_of c) \<and>
          members c' = fold amerge ps (members c)"
  using assms
proof (induction ps arbitrary: c)
  case Nil
  then show ?case by simp
next
  case (Cons p ps)
  obtain a b where p: "p = (a, b)" by (cases p)
  have ab: "a \<in> dom (map_of c)" "b \<in> dom (map_of c)" using Cons.prems(2) p by auto
  from members_link[OF Cons.prems(1) ab] obtain c1 where
    c1: "link a b c = Inr c1" "cn_inv c1" "dom (map_of c1) = dom (map_of c)"
        "members c1 = amerge (a, b) (members c)" by blast
  have "\<forall>p\<in>set ps. fst p \<in> dom (map_of c1) \<and> snd p \<in> dom (map_of c1)"
    using Cons.prems(2) c1(3) by simp
  from Cons.IH[OF c1(2) this] obtain c' where
    c': "links ps c1 = Inr c'" "cn_inv c'" "dom (map_of c') = dom (map_of c1)"
        "members c' = fold amerge ps (members c1)" by blast
  show ?case using c1 c' p by simp
qed

lemma amerge_self:
  assumes "part N A" shows "amerge (a, a) A = A"
proof (rule ext)
  fix n
  have t: "\<And>n m. m \<in> A n \<Longrightarrow> A m = A n" using assms unfolding part_def by blast
  show "amerge (a, a) A n = A n"
  proof (cases "n \<in> A a")
    case True then show ?thesis using t[OF True] by (simp add: amerge_def)
  next
    case False then show ?thesis by (simp add: amerge_def)
  qed
qed


lemma part_fold:
  assumes "part N A" "\<forall>p\<in>set ps. fst p \<in> N \<and> snd p \<in> N"
  shows "part N (fold amerge ps A)"
  using assms
proof (induction ps arbitrary: A)
  case Nil
  then show ?case by simp
next
  case (Cons p ps)
  have "part N (amerge p A)" using part_amerge[OF Cons.prems(1)] Cons.prems(2) by simp
  then show ?case using Cons.IH[of "amerge p A"] Cons.prems(2) by simp
qed

lemma amerge_keeps:
  assumes "part N A" "A a = A b"
  shows "amerge p A a = amerge p A b"
proof -
  have t: "\<And>n m. m \<in> A n \<Longrightarrow> A m = A n" using assms(1) unfolding part_def by blast
  have r: "\<And>n. n \<in> N \<Longrightarrow> n \<in> A n" and e: "\<And>n. n \<notin> N \<Longrightarrow> A n = {}"
    using assms(1) unfolding part_def by blast+
  have "a \<in> A (fst p) \<union> A (snd p) \<longleftrightarrow> b \<in> A (fst p) \<union> A (snd p)"
  proof
    assume h: "a \<in> A (fst p) \<union> A (snd p)"
    then have "A a = A (fst p) \<or> A a = A (snd p)" using t by blast
    moreover have "a \<in> N" using h e by (cases "a \<in> N") (auto dest: t)
    then have "a \<in> A a" using r by blast
    then have "b \<in> N" using assms(2) e by (cases "b \<in> N") auto
    then have "b \<in> A b" using r by blast
    ultimately show "b \<in> A (fst p) \<union> A (snd p)" using assms(2) by blast
  next
    assume h: "b \<in> A (fst p) \<union> A (snd p)"
    then have "A b = A (fst p) \<or> A b = A (snd p)" using t by blast
    moreover have "b \<in> N" using h e by (cases "b \<in> N") (auto dest: t)
    then have "b \<in> A b" using r by blast
    then have "a \<in> N" using assms(2) e by (cases "a \<in> N") auto
    then have "a \<in> A a" using r by blast
    ultimately show "a \<in> A (fst p) \<union> A (snd p)" using assms(2) by blast
  qed
  then show ?thesis using assms(2) by (simp add: amerge_def)
qed

lemma amerge_joins:
  assumes "part N A" "fst p \<in> N" "snd p \<in> N"
  shows "amerge p A (fst p) = amerge p A (snd p)"
proof -
  have "fst p \<in> A (fst p)" "snd p \<in> A (snd p)" using assms unfolding part_def by blast+
  then show ?thesis by (simp add: amerge_def)
qed

lemma fold_joins:
  assumes "part N A" "\<forall>p\<in>set ps. fst p \<in> N \<and> snd p \<in> N" "A a = A b \<or> (a, b) \<in> set ps"
  shows "fold amerge ps A a = fold amerge ps A b"
  using assms
proof (induction ps arbitrary: A)
  case Nil
  then show ?case by simp
next
  case (Cons p ps)
  have pa: "part N (amerge p A)" using part_amerge[OF Cons.prems(1)] Cons.prems(2) by simp
  have rest: "\<forall>p\<in>set ps. fst p \<in> N \<and> snd p \<in> N" using Cons.prems(2) by simp
  have "amerge p A a = amerge p A b \<or> (a, b) \<in> set ps"
  proof (cases "A a = A b")
    case True
    then show ?thesis using amerge_keeps[OF Cons.prems(1)] by blast
  next
    case False
    then have "(a, b) = p \<or> (a, b) \<in> set ps" using Cons.prems(3) by auto
    then show ?thesis
    proof
      assume "(a, b) = p"
      then have "fst p = a" "snd p = b" by auto
      then show ?thesis using amerge_joins[OF Cons.prems(1), of p] Cons.prems(2) by auto
    next
      assume "(a, b) \<in> set ps" then show ?thesis by blast
    qed
  qed
  then show ?case using Cons.IH[OF pa rest] by simp
qed

lemma amerge_below:
  assumes "part N B" "\<forall>n. A n \<subseteq> B n" "B (fst p) = B (snd p)"
  shows "amerge p A n \<subseteq> B n"
proof (cases "n \<in> A (fst p) \<union> A (snd p)")
  case True
  have t: "\<And>n m. m \<in> B n \<Longrightarrow> B m = B n" using assms(1) unfolding part_def by blast
  have "n \<in> B (fst p)" using True assms(2,3) by blast
  then have "B n = B (fst p)" using t by blast
  then have "A (fst p) \<union> A (snd p) \<subseteq> B n" using assms(2,3) by blast
  then show ?thesis using True by (simp add: amerge_def)
next
  case False
  then show ?thesis using assms(2) by (simp add: amerge_def)
qed

lemma fold_below:
  assumes "part N B" "\<forall>n. A n \<subseteq> B n" "\<forall>p\<in>set ps. B (fst p) = B (snd p)"
  shows "fold amerge ps A n \<subseteq> B n"
  using assms(2,3)
proof (induction ps arbitrary: A n)
  case Nil
  then show ?case by simp
next
  case (Cons p ps)
  have "\<forall>n. amerge p A n \<subseteq> B n" using amerge_below[OF assms(1) Cons.prems(1)] Cons.prems(2) by simp
  then show ?case using Cons.IH[of "amerge p A"] Cons.prems(2) by simp
qed

lemma members_Cnodes: "members (Cnodes nodes) n = (if n \<in> set nodes then {n} else {})"
  by (simp add: members_def map_of_Cnodes)


text \<open>
  C9, as the claim states it: merging is free of errors, and merging a point with itself
  is a no-op. The table holds the names given to \<^verbatim>\<open>Cnodes(nodes)\<close> and nothing creates a group
  later: a merge that names any other point raises \<^verbatim>\<open>KeyError\<close>, also a merge of that point
  with itself.
\<close>

theorem merge_unseen_point_counterexample:
  "link ''z'' ''z'' (Cnodes [''a'', ''b'']) = Inl KeyError \<and>
   links [(''a'', ''z'')] (Cnodes [''a'', ''b'']) = Inl KeyError"
  by (simp add: link_def Cnodes_def)

text \<open>
  C9, amended to the names that the table knows: for merge calls \<open>ps\<close> on known names and any
  permutation \<open>ps'\<close> of them, both sequences succeed and end with the same groups. The groups
  partition the names; the two names of every merge call share a group; and the groups are
  the smallest such partition, so nothing is merged that the calls do not force. In the
  table reached, merging \<open>a\<close> with \<open>b\<close> replaces the groups of \<open>a\<close> and of \<open>b\<close> by their union and
  leaves every other group as it was, so the one group holds \<open>a\<close>, \<open>b\<close> and every name that
  was merged with either; and merging a name with itself leaves every group as it was.
\<close>

theorem link_transitive_idempotent_order_independent:
  assumes known: "\<forall>p\<in>set ps. fst p \<in> set nodes \<and> snd p \<in> set nodes"
    and perm: "mset ps' = mset ps"
  shows "\<exists>c c'. links ps (Cnodes nodes) = Inr c \<and> links ps' (Cnodes nodes) = Inr c' \<and>
           members c' = members c \<and>
           part (set nodes) (members c) \<and>
           (\<forall>p\<in>set ps. snd p \<in> members c (fst p) \<and> members c (fst p) = members c (snd p)) \<and>
           (\<forall>B. part (set nodes) B \<and> (\<forall>p\<in>set ps. B (fst p) = B (snd p)) \<longrightarrow>
                (\<forall>n. members c n \<subseteq> B n)) \<and>
           (\<forall>a\<in>set nodes. \<forall>b\<in>set nodes. \<exists>c2. link a b c = Inr c2 \<and>
              (\<forall>x. members c2 x =
                     (if x \<in> members c a \<union> members c b then members c a \<union> members c b
                      else members c x)) \<and>
              a \<in> members c2 a \<and> b \<in> members c2 a \<and>
              (\<forall>x\<in>members c a \<union> members c b. x \<in> members c2 a \<and> members c2 x = members c2 a)) \<and>
           (\<forall>a\<in>set nodes. \<exists>c2. link a a c = Inr c2 \<and> members c2 = members c)"
proof -
  let ?c0 = "Cnodes nodes"
  have set_eq: "set ps' = set ps" using perm by (rule mset_eq_setD)
  have k0: "\<forall>p\<in>set ps. fst p \<in> dom (map_of ?c0) \<and> snd p \<in> dom (map_of ?c0)"
    using known by (simp add: dom_Cnodes)
  have k0': "\<forall>p\<in>set ps'. fst p \<in> dom (map_of ?c0) \<and> snd p \<in> dom (map_of ?c0)"
    using k0 set_eq by simp
  from links_members[OF cn_inv_Cnodes k0] obtain c where
    c: "links ps ?c0 = Inr c" "cn_inv c" "dom (map_of c) = set nodes"
       "members c = fold amerge ps (members ?c0)" by (auto simp: dom_Cnodes)
  from links_members[OF cn_inv_Cnodes k0'] obtain c' where
    c': "links ps' ?c0 = Inr c'" "members c' = fold amerge ps' (members ?c0)" by blast
  have p0: "part (set nodes) (members ?c0)"
    using part_members[OF cn_inv_Cnodes, of nodes] by (simp add: dom_Cnodes)
  have "fold amerge ps' (members ?c0) = fold amerge ps (members ?c0)"
  proof (rule fold_permuted_eq[where P = "part (set nodes)", OF perm p0])
    fix x z assume "x \<in> set ps'" "part (set nodes) z"
    then show "part (set nodes) (amerge x z)" using known set_eq part_amerge by blast
  next
    fix x y z assume "x \<in> set ps'" "y \<in> set ps'" "part (set nodes) z"
    then show "amerge x (amerge y z) = amerge y (amerge x z)"
      using known set_eq amerge_commute[of "set nodes" z x y] by blast
  qed
  then have order: "members c' = members c" using c(4) c'(2) by simp
  have pc: "part (set nodes) (members c)" using part_members[OF c(2)] c(3) by simp
  have joined: "snd p \<in> members c (fst p) \<and> members c (fst p) = members c (snd p)"
    if p: "p \<in> set ps" for p
  proof -
    have "(fst p, snd p) \<in> set ps" using p by simp
    then have e: "members c (fst p) = members c (snd p)"
      unfolding c(4) using fold_joins[OF p0 known] by blast
    have "snd p \<in> members c (snd p)" using pc known p unfolding part_def by blast
    then show ?thesis using e by simp
  qed
  have least: "members c n \<subseteq> B n"
    if B: "part (set nodes) B \<and> (\<forall>p\<in>set ps. B (fst p) = B (snd p))" for B n
  proof -
    have "\<forall>n. members ?c0 n \<subseteq> B n" using B unfolding part_def by (auto simp: members_Cnodes)
    then show ?thesis unfolding c(4) using fold_below[of "set nodes" B "members ?c0" ps n] B by blast
  qed
  have trans: "\<exists>c2. link a b c = Inr c2 \<and>
     (\<forall>x. members c2 x =
            (if x \<in> members c a \<union> members c b then members c a \<union> members c b else members c x)) \<and>
     a \<in> members c2 a \<and> b \<in> members c2 a \<and>
     (\<forall>x\<in>members c a \<union> members c b. x \<in> members c2 a \<and> members c2 x = members c2 a)"
    if ab: "a \<in> set nodes" "b \<in> set nodes" for a b
  proof -
    from members_link[OF c(2), of a b] ab c(3) obtain c2 where
      c2: "link a b c = Inr c2" "members c2 = amerge (a, b) (members c)" by auto
    have r: "a \<in> members c a" "b \<in> members c b" using pc ab unfolding part_def by blast+
    have ex: "\<And>x. members c2 x =
            (if x \<in> members c a \<union> members c b then members c a \<union> members c b else members c x)"
      unfolding c2(2) amerge_def fst_conv snd_conv ..
    have m: "\<And>x. x \<in> members c a \<union> members c b \<Longrightarrow> members c2 x = members c a \<union> members c b"
      unfolding ex by (simp only: if_True)
    have ma: "members c2 a = members c a \<union> members c b" using m[of a] r by blast
    show ?thesis using c2(1) ex m ma r by blast
  qed
  have idem: "\<exists>c2. link a a c = Inr c2 \<and> members c2 = members c" if a: "a \<in> set nodes" for a
  proof -
    from members_link[OF c(2), of a a] a c(3) obtain c2 where
      c2: "link a a c = Inr c2" "members c2 = amerge (a, a) (members c)" by auto
    show ?thesis using c2 amerge_self[OF pc] by simp
  qed
  show ?thesis
  proof (rule exI[of _ c], rule exI[of _ c'], intro conjI)
    show "links ps (Cnodes nodes) = Inr c" by (rule c(1))
    show "links ps' (Cnodes nodes) = Inr c'" by (rule c'(1))
    show "members c' = members c" by (rule order)
    show "part (set nodes) (members c)" by (rule pc)
    show "\<forall>p\<in>set ps. snd p \<in> members c (fst p) \<and> members c (fst p) = members c (snd p)"
      using joined by blast
    show "\<forall>B. part (set nodes) B \<and> (\<forall>p\<in>set ps. B (fst p) = B (snd p)) \<longrightarrow>
                (\<forall>n. members c n \<subseteq> B n)"
      using least by blast
    show "\<forall>a\<in>set nodes. \<forall>b\<in>set nodes. \<exists>c2. link a b c = Inr c2 \<and>
              (\<forall>x. members c2 x =
                     (if x \<in> members c a \<union> members c b then members c a \<union> members c b
                      else members c x)) \<and>
              a \<in> members c2 a \<and> b \<in> members c2 a \<and>
              (\<forall>x\<in>members c a \<union> members c b. x \<in> members c2 a \<and> members c2 x = members c2 a)"
      using trans by (intro ballI)
    show "\<forall>a\<in>set nodes. \<exists>c2. link a a c = Inr c2 \<and> members c2 = members c"
      using idem by (intro ballI)
  qed
qed

theorem link_transitive_idempotent_order_independent_witness:
  "\<exists>c c'. links [(''a'', ''b''), (''b'', ''c'')] (Cnodes [''a'', ''b'', ''c'', ''d'']) = Inr c \<and> links [(''b'', ''c''), (''a'', ''b'')] (Cnodes [''a'', ''b'', ''c'', ''d'']) = Inr c' \<and>
           members c' = members c \<and>
           part (set [''a'', ''b'', ''c'', ''d'']) (members c) \<and>
           (\<forall>p\<in>set [(''a'', ''b''), (''b'', ''c'')]. snd p \<in> members c (fst p) \<and> members c (fst p) = members c (snd p)) \<and>
           (\<forall>B. part (set [''a'', ''b'', ''c'', ''d'']) B \<and> (\<forall>p\<in>set [(''a'', ''b''), (''b'', ''c'')]. B (fst p) = B (snd p)) \<longrightarrow>
                (\<forall>n. members c n \<subseteq> B n)) \<and>
           (\<forall>a\<in>set [''a'', ''b'', ''c'', ''d'']. \<forall>b\<in>set [''a'', ''b'', ''c'', ''d'']. \<exists>c2. link a b c = Inr c2 \<and>
              (\<forall>x. members c2 x =
                     (if x \<in> members c a \<union> members c b then members c a \<union> members c b
                      else members c x)) \<and>
              a \<in> members c2 a \<and> b \<in> members c2 a \<and>
              (\<forall>x\<in>members c a \<union> members c b. x \<in> members c2 a \<and> members c2 x = members c2 a)) \<and>
           (\<forall>a\<in>set [''a'', ''b'', ''c'', ''d'']. \<exists>c2. link a a c = Inr c2 \<and> members c2 = members c)"
  by (rule link_transitive_idempotent_order_independent) simp_all

section \<open>Evaluation on given graphs\<close>

lemmas eval_defs =
  layout_def build_def Graph_def Cnodes_def link_def assign_all_def add_def cnode_key_def add_node_def
  getitem_def add_edges_def upd_def Gedge_def Gnode_def analyse_def add_start_nodes_def
  start_end_edges_def longest_forward_path_def reset_def relax_def walk_back.simps follow.simps
  fixed_loop.simps
  assign_fixed_def stretch_node_def longest_path_to_known_def edges_of_def resolve_def
  extract_positions_def Let_def

text \<open>
  C1: a non-stretchable edge between two resolved groups should keep its length exactly. On
  the graph with the rigid edges \<open>a \<rightarrow> b\<close> of length 10, \<open>c \<rightarrow> d\<close> of length 1 and \<open>d \<rightarrow> b\<close> of
  length 1, \<^verbatim>\<open>assign_fixed\<close> reads the working \<^verbatim>\<open>dist\<close> of the neighbour, not its
  \<^verbatim>\<open>known_dist\<close>: \<open>d\<close> is placed at 9 and \<open>c\<close> at 0, so the rigid edge \<open>c \<rightarrow> d\<close> of length 1
  spans 9.
\<close>

theorem fixed_edge_length_not_kept:
  "layout 1000 ''horizontal'' [''a'', ''b'', ''c'', ''d''] []
     [(''a'', ''b'', 10, False), (''c'', ''d'', 1, False), (''d'', ''b'', 1, False)] =
   Some (Inr (Some ([(''a'', Some 0), (''b'', Some 10), (''c'', Some 0), (''d'', Some 9)], Some 10)))"
  by (simp add: eval_defs)

text \<open>
  C2: two components in series, of sizes 1 and 2, on the chain \<open>a\<close>, \<open>b\<close>, \<open>c\<close>. The edge pass
  \<^verbatim>\<open>Cpt.place\<close> stops at its first call of \<^verbatim>\<open>graphs.add\<close> with a \<^verbatim>\<open>TypeError\<close>, and no
  distance is computed.
\<close>

theorem place_raises_TypeError:
  "places [\<lparr>points = [(''a'', 0), (''b'', 1)], size_c = 1, stretch_c = True\<rparr>,
           \<lparr>points = [(''b'', 0), (''c'', 1)], size_c = 2, stretch_c = True\<rparr>]
     (Graph ''horizontal'' [''a'', ''b'', ''c'']) = Inl TypeError"
  by (simp add: place_def argsort_desc_def add_call5_def)

text \<open>
  The same two edges given to \<^verbatim>\<open>Graph.add\<close> with its own four arguments, as \<^verbatim>\<open>Cpt.place\<close>
  computes them (larger value first, negative length), resolve to 0, 1 and 3.
\<close>

lemma series_by_direct_add:
  "layout 1000 ''horizontal'' [''a'', ''b'', ''c''] []
     [(''b'', ''a'', - 1, True), (''c'', ''b'', - 2, True)] =
   Some (Inr (Some ([(''a'', Some 0), (''b'', Some 1), (''c'', Some 3)], Some 3)))"
  by (simp add: eval_defs)

text \<open>
  C8: the same links and the same edges should give the same distances in any order of
  insertion. With the edges \<open>x \<rightarrow> b\<close> and \<open>x \<rightarrow> c\<close> inserted in the two orders, \<open>x\<close> is placed
  at 5 and at 2: \<^verbatim>\<open>longest_path_to_known\<close> leaves in \<^verbatim>\<open>next\<close> the last edge that relaxed its
  target, not the edge of the longest path.
\<close>

theorem insertion_order_changes_distance:
  "layout 1000 ''horizontal'' [''a'', ''b'', ''c'', ''x''] []
     [(''a'', ''b'', 5, False), (''b'', ''c'', 5, False), (''a'', ''x'', 1, True),
      (''x'', ''b'', 2, True), (''x'', ''c'', 1, True)] =
   Some (Inr (Some ([(''a'', Some 0), (''b'', Some 5), (''c'', Some 10), (''x'', Some 5)], Some 10))) \<and>
   layout 1000 ''horizontal'' [''a'', ''b'', ''c'', ''x''] []
     [(''a'', ''b'', 5, False), (''b'', ''c'', 5, False), (''a'', ''x'', 1, True),
      (''x'', ''c'', 1, True), (''x'', ''b'', 2, True)] =
   Some (Inr (Some ([(''a'', Some 0), (''b'', Some 5), (''c'', Some 10), (''x'', Some 2)], Some 10)))"
  by (simp add: eval_defs)

text \<open>
  C10: a graph with no edges should give 0 for every name and extent 0. With a name
  \<^verbatim>\<open>'start'\<close> or \<^verbatim>\<open>'end'\<close> among the nodes, \<^verbatim>\<open>add_node\<close> reads the synthetic node back through
  \<^verbatim>\<open>__getitem__\<close>, which looks for the tuple of that name: \<^verbatim>\<open>KeyError\<close>.
\<close>

theorem no_edges_start_name_KeyError:
  "analyse 1000 None (Graph ''horizontal'' [''start'']) = Some (Inl KeyError) \<and>
   analyse 1000 None (Graph ''horizontal'' [''a'', ''end'']) = Some (Inl KeyError)"
  by (simp add: eval_defs)

text \<open>
  With no node named \<^verbatim>\<open>'start'\<close> or \<^verbatim>\<open>'end'\<close>, the graph without edges gives 0 everywhere.
\<close>

lemma no_edges_all_zero:
  assumes "keys g = []" "map_of (cnodes g) ''start'' = None" "map_of (cnodes g) ''end'' = None"
  shows "analyse rlim stage g = Some (Inr (Some (map (\<lambda>(n, t). (n, Some 0)) (cnodes g), Some 0)))"
  using assms
  by (simp add: analyse_def add_start_nodes_def add_node_def getitem_def Let_def)

section \<open>Edge insertion\<close>













section \<open>What the path functions leave unchanged\<close>

lemma same_refl: "same g g"
  by (simp add: same_def)

lemma same_trans: "same g g1 \<Longrightarrow> same g1 g2 \<Longrightarrow> same g g2"
  by (simp add: same_def)

lemma same_upd:
  assumes "\<And>x. known_dist (f x) = known_dist x"
  shows "same g (upd k f g)"
  using assms by (simp add: same_def upd_def)

lemma same_fold_upd:
  assumes "\<And>x. known_dist (f x) = known_dist x"
  shows "same g (fold (\<lambda>k. upd k f) ks g)"
proof (induction ks arbitrary: g)
  case Nil
  show ?case by (simp add: same_refl)
next
  case (Cons k ks)
  have "same g (upd k f g)" using assms by (rule same_upd)
  from same_trans[OF this Cons[of "upd k f g"]] show ?case by simp
qed

lemma same_reset: "same g (reset g)"
  unfolding reset_def by (rule same_fold_upd) simp

lemma same_relax: "same g (relax n e d g)"
  unfolding relax_def
  by (rule same_trans[OF same_upd same_upd]) simp_all

lemma same_traverse:
  "traverse d n es g = Inr g' \<Longrightarrow> same g g'"
proof (induction d n es g arbitrary: g' rule: traverse.induct)
  case (1 d n g)
  then show ?case by (simp add: same_refl)
next
  case (2 d n edge edges g)
  let ?dst = "dist_n (node g n) + size_e edge"
  show ?case
  proof (cases "?dst > dist_n (node g (to_node edge))")
    case False
    then have "traverse d n edges g = Inr g'" using "2.prems" by (simp add: Let_def)
    then show ?thesis using "2.IH"(3) False by (simp add: Let_def)
  next
    case True
    let ?g1 = "relax n edge ?dst g"
    from "2.prems" True obtain d' g2 where d: "d = Suc d'"
      and t1: "traverse d' (to_node edge) (fedges (node ?g1 (to_node edge))) ?g1 = Inr g2"
      and t2: "traverse d n edges g2 = Inr g'"
      by (auto simp: Let_def split: nat.splits sum.splits)
    have s1: "same ?g1 g2" using "2.IH"(1)[OF refl refl True refl d t1] .
    have s2: "same g2 g'" using "2.IH"(2)[OF refl refl True refl d t1 t2] .
    show ?thesis using same_trans[OF same_relax same_trans[OF s1 s2]] .
  qed
qed

lemma same_traverse_known:
  "traverse_known fw d n es g = Inr g' \<Longrightarrow> same g g'"
proof (induction fw d n es g arbitrary: g' rule: traverse_known.induct)
  case (1 fw d n g)
  then show ?case by (simp add: same_refl)
next
  case (2 fw d n edge edges g)
  let ?dst = "dist_n (node g n) + size_e edge"
  show ?case
  proof (cases "?dst > dist_n (node g (to_node edge))")
    case False
    then have "traverse_known fw d n edges g = Inr g'" using "2.prems" by (simp add: Let_def)
    then show ?thesis using "2.IH"(4) False by (simp add: Let_def)
  next
    case True
    let ?g1 = "relax n edge ?dst g"
    from "2.prems" True obtain d' where d: "d = Suc d'"
      by (cases d) (auto simp: Let_def)
    show ?thesis
    proof (cases "known_dist (node ?g1 (to_node edge)) \<noteq> None")
      case k: True
      then have "traverse_known fw d n edges ?g1 = Inr g'"
        using "2.prems" True d by (simp add: Let_def)
      then have "same ?g1 g'" using "2.IH"(1)[OF refl refl True refl d k] by simp
      then show ?thesis using same_trans[OF same_relax] by blast
    next
      case k: False
      from "2.prems" True d k obtain g2 where
        t1: "traverse_known fw d' (to_node edge) (edges_of fw (node ?g1 (to_node edge))) ?g1 = Inr g2"
        and t2: "traverse_known fw d n edges g2 = Inr g'"
        by (auto simp: Let_def split: sum.splits)
      have s1: "same ?g1 g2" using "2.IH"(2)[OF refl refl True refl d k t1] .
      have s2: "same g2 g'" using "2.IH"(3)[OF refl refl True refl d k t1 t2] .
      show ?thesis using same_trans[OF same_relax same_trans[OF s1 s2]] .
    qed
  qed
qed

lemma same_start: "same g (upd start (\<lambda>x. x\<lparr>dist_n := 0\<rparr>) (reset g))"
  by (rule same_trans[OF same_reset same_upd]) simp

lemma same_longest_forward_path:
  assumes "longest_forward_path rlim start g = Inr g'"
  shows "same g g'"
proof -
  let ?g1 = "upd start (\<lambda>x. x\<lparr>dist_n := 0\<rparr>) (reset g)"
  from assms obtain d where "traverse d start (fedges (node ?g1 start)) ?g1 = Inr g'"
    by (auto simp: longest_forward_path_def Let_def split: nat.splits sum.splits error.splits)
  then have "same ?g1 g'" by (rule same_traverse)
  then show ?thesis using same_trans[OF same_start] by blast
qed

lemma same_longest_path_to_known:
  assumes "longest_path_to_known rlim start fw g = Inr g'"
  shows "same g g'"
proof -
  let ?g1 = "upd start (\<lambda>x. x\<lparr>dist_n := 0\<rparr>) (reset g)"
  from assms have "g' = ?g1 \<or> (\<exists>d. traverse_known fw d start (edges_of fw (node ?g1 start)) ?g1 = Inr g')"
    by (auto simp: longest_path_to_known_def Let_def split: nat.splits if_splits)
  then have "same ?g1 g'" using same_traverse_known same_refl by blast
  then show ?thesis using same_trans[OF same_start] by blast
qed





section \<open>The stretch stage\<close>







section \<open>Cycles\<close>

lemma two_cycle_recursion:
  assumes "fedges (node g (Tup [''a''])) = [Gedge (Tup [''a'']) (Tup [''b'']) 1 False]"
    "fedges (node g (Tup [''b''])) = [Gedge (Tup [''b'']) (Tup [''a'']) 1 False]"
    "known_dist (node g (Tup [''a''])) = None" "known_dist (node g (Tup [''b''])) = None"
  shows "(dist_n (node g (Tup [''a''])) + 1 > dist_n (node g (Tup [''b''])) \<longrightarrow>
            traverse_known True d (Tup [''a'']) [Gedge (Tup [''a'']) (Tup [''b'']) 1 False] g = Inl RecursionLimit) \<and>
         (dist_n (node g (Tup [''b''])) + 1 > dist_n (node g (Tup [''a''])) \<longrightarrow>
            traverse_known True d (Tup [''b'']) [Gedge (Tup [''b'']) (Tup [''a'']) 1 False] g = Inl RecursionLimit)"
  using assms
proof (induction d arbitrary: g)
  case 0
  then show ?case by (simp add: Gedge_def)
next
  case (Suc d)
  let ?A = "Tup [''a'']" and ?B = "Tup [''b'']"
  let ?eAB = "Gedge ?A ?B 1 False" and ?eBA = "Gedge ?B ?A 1 False"
  have ab: "?A \<noteq> ?B" by simp
  show ?case
  proof (intro conjI impI)
    assume lt: "dist_n (node g ?B) < dist_n (node g ?A) + 1"
    let ?g1 = "relax ?A ?eAB (dist_n (node g ?A) + 1) g"
    have f: "fedges (node ?g1 ?A) = [?eAB]" "fedges (node ?g1 ?B) = [?eBA]"
      "known_dist (node ?g1 ?A) = None" "known_dist (node ?g1 ?B) = None"
      "dist_n (node ?g1 ?B) = dist_n (node g ?A) + 1" "dist_n (node ?g1 ?A) = dist_n (node g ?A)"
      using Suc.prems by (simp_all add: relax_def upd_def Gedge_def)
    have "dist_n (node ?g1 ?A) < dist_n (node ?g1 ?B) + 1" unfolding f(5,6) by simp
    then have r: "traverse_known True d ?B [?eBA] ?g1 = Inl RecursionLimit"
      using Suc.IH[OF f(1-4)] by blast
    have te: "to_node ?eAB = ?B" "size_e ?eAB = 1" by (simp_all add: Gedge_def)
    show "traverse_known True (Suc d) ?A [?eAB] g = Inl RecursionLimit"
      using lt r f(2,4) by (simp add: te Let_def edges_of_def)
  next
    assume lt: "dist_n (node g ?A) < dist_n (node g ?B) + 1"
    let ?g1 = "relax ?B ?eBA (dist_n (node g ?B) + 1) g"
    have f: "fedges (node ?g1 ?A) = [?eAB]" "fedges (node ?g1 ?B) = [?eBA]"
      "known_dist (node ?g1 ?A) = None" "known_dist (node ?g1 ?B) = None"
      "dist_n (node ?g1 ?A) = dist_n (node g ?B) + 1" "dist_n (node ?g1 ?B) = dist_n (node g ?B)"
      using Suc.prems by (simp_all add: relax_def upd_def Gedge_def)
    have "dist_n (node ?g1 ?B) < dist_n (node ?g1 ?A) + 1" unfolding f(5,6) by simp
    then have r: "traverse_known True d ?A [?eAB] ?g1 = Inl RecursionLimit"
      using Suc.IH[OF f(1-4)] by blast
    have te: "to_node ?eBA = ?A" "size_e ?eBA = 1" by (simp_all add: Gedge_def)
    show "traverse_known True (Suc d) ?B [?eBA] g = Inl RecursionLimit"
      using lt r f(1,3) by (simp add: te Let_def edges_of_def)
  qed
qed

text \<open>
  C3: on the cycle of the specification, \<open>a \<rightarrow> b\<close> and \<open>b \<rightarrow> a\<close> of length 1, neither node
  lacks an edge, so \<^verbatim>\<open>'start'\<close> gets no edge, \<^verbatim>\<open>longest_forward_path\<close> relaxes nothing, and
  \<^verbatim>\<open>analyse\<close> stops with an \<^verbatim>\<open>AttributeError\<close> at \<^verbatim>\<open>node.prev.from_node\<close>. On the same graph
  \<^verbatim>\<open>longest_path_to_known\<close> ends, for every recursion limit, with the bare \<^verbatim>\<open>RuntimeError\<close> of
  the interpreter, which it does not catch.
\<close>

theorem cycle_not_reported:
  "layout 1000 ''horizontal'' [''a'', ''b''] [] [(''a'', ''b'', 1, False), (''b'', ''a'', 1, False)] =
     Some (Inl AttributeError) \<and>
   (case build ''horizontal'' [''a'', ''b''] [] [(''a'', ''b'', 1, False), (''b'', ''a'', 1, False)] of
      Inl e \<Rightarrow> Inl e
    | Inr g \<Rightarrow> longest_path_to_known rlim (Tup [''a'']) True g) = Inl RecursionLimit"
proof
  show "layout 1000 ''horizontal'' [''a'', ''b''] [] [(''a'', ''b'', 1, False), (''b'', ''a'', 1, False)] =
     Some (Inl AttributeError)"
    by (simp add: eval_defs)
next
  let ?A = "Tup [''a'']" and ?B = "Tup [''b'']"
  define G where "G = (case build ''horizontal'' [''a'', ''b''] [] [(''a'', ''b'', 1, False), (''b'', ''a'', 1, False)] of Inr g \<Rightarrow> g)"
  have b: "build ''horizontal'' [''a'', ''b''] [] [(''a'', ''b'', 1, False), (''b'', ''a'', 1, False)] = Inr G"
    unfolding G_def by (simp add: eval_defs)
  let ?g1 = "upd ?A (\<lambda>x. x\<lparr>dist_n := 0\<rparr>) (reset G)"
  have f: "fedges (node ?g1 ?A) = [Gedge ?A ?B 1 False]" "fedges (node ?g1 ?B) = [Gedge ?B ?A 1 False]"
      "known_dist (node ?g1 ?A) = None" "known_dist (node ?g1 ?B) = None"
      "dist_n (node ?g1 ?A) = 0" "dist_n (node ?g1 ?B) = - 1"
    unfolding G_def by (simp_all add: eval_defs)
  have "dist_n (node ?g1 ?B) < dist_n (node ?g1 ?A) + 1" unfolding f(5,6) by simp
  then have r: "\<And>d. traverse_known True d ?A [Gedge ?A ?B 1 False] ?g1 = Inl RecursionLimit"
    using two_cycle_recursion[OF f(1-4)] by blast
  have "longest_path_to_known rlim ?A True G = Inl RecursionLimit"
    using r f(1,3) by (cases rlim) (simp_all add: longest_path_to_known_def Let_def edges_of_def)
  then show "(case build ''horizontal'' [''a'', ''b''] [] [(''a'', ''b'', 1, False), (''b'', ''a'', 1, False)] of
      Inl e \<Rightarrow> Inl e
    | Inr g \<Rightarrow> longest_path_to_known rlim (Tup [''a'']) True g) = Inl RecursionLimit"
    unfolding b by simp
qed

section \<open>Extraction\<close>

lemma getitem_Tup: "getitem g (Tup t) = Inr k \<Longrightarrow> k = Tup t"
  by (auto simp: getitem_def Let_def split: if_splits)


lemma frame_refl: "frame g g"
  by (simp add: frame_def)

lemma frame_trans: "frame g g1 \<Longrightarrow> frame g1 g2 \<Longrightarrow> frame g g2"
  by (simp add: frame_def)

lemma frame_upd: "frame g (upd k f g)"
  by (simp add: frame_def upd_def)

lemma same_frame: "same g g' \<Longrightarrow> frame g g'"
  by (simp add: same_def frame_def)

lemma walk_back_resolved:
  assumes "walk_back n unknown g = Some y"
  shows "\<forall>g' unknown'. y = Inr (g', unknown') \<longrightarrow> resolved g unknown \<longrightarrow>
           resolved g' unknown' \<and> frame g g'"
proof (rule walk_back.raw_induct[OF _ assms], goal_cases)
  case (1 wb n unknown g y)
  note IH = "1"(1) and eq = "1"(2)
  show ?case
  proof (intro allI impI)
    fix g' unknown'
    assume y: "y = Inr (g', unknown')" and r: "resolved g unknown"
    show "resolved g' unknown' \<and> frame g g'"
    proof (cases "n = Str ''start''")
      case True
      then have "g' = g" "unknown' = unknown" using eq y by simp_all
      then show ?thesis using r by (simp add: frame_refl)
    next
      case False
      let ?u = "removeAll n unknown"
      let ?g = "upd n (\<lambda>x. x\<lparr>known_dist := Some (dist_n x)\<rparr>) g"
      from eq False y obtain e where e: "prev (node ?g n) = Some e"
        and w: "wb (from_node e) ?u ?g = Some (Inr (g', unknown'))"
        by (auto simp: Let_def split: option.splits)
      have r1: "resolved ?g ?u"
        using r by (auto simp: resolved_def upd_def)
      from IH[OF w] r1 have "resolved g' unknown' \<and> frame ?g g'" by blast
      then show ?thesis using frame_trans[OF frame_upd] by blast
    qed
  qed
qed

lemma assign_fixed_props:
  assumes "assign_fixed k unknown g = (g', b)"
  shows "frame g g' \<and> (b \<longrightarrow> known_dist (node g' k) \<noteq> None) \<and>
         (\<forall>k'. k' \<noteq> k \<longrightarrow> known_dist (node g' k') = known_dist (node g k')) \<and>
         (\<not> b \<longrightarrow> g' = g)"
  using assms
  by (auto simp: assign_fixed_def frame_def upd_def split: option.splits)

lemma fixed_pass_props:
  "fixed_pass ns unknown g = Inr (g', r) \<Longrightarrow>
   frame g g' \<and>
   (r = None \<longrightarrow> g' = g) \<and>
   (\<forall>n. r = Some n \<longrightarrow> (\<exists>k. getitem g n = Inr k \<and> known_dist (node g' k) \<noteq> None \<and>
        (\<forall>k'. k' \<noteq> k \<longrightarrow> known_dist (node g' k') = known_dist (node g k'))))"
proof (induction ns arbitrary: g)
  case Nil
  then show ?case by (simp add: frame_refl)
next
  case (Cons n ns)
  from Cons.prems obtain k where k: "getitem g n = Inr k" by (auto split: sum.splits)
  obtain g1 b where a: "assign_fixed k unknown g = (g1, b)" by (cases "assign_fixed k unknown g")
  note p = assign_fixed_props[OF a]
  show ?case
  proof (cases b)
    case True
    then have "g' = g1" "r = Some n" using Cons.prems k a by simp_all
    then show ?thesis using p True k by auto
  next
    case False
    then have "g1 = g" using p by simp
    then have "fixed_pass ns unknown g = Inr (g', r)" using Cons.prems k a False by simp
    then show ?thesis using Cons.IH by blast
  qed
qed

lemma fixed_loop_resolved:
  "fixed_loop unknown g = Inr (g', unknown') \<Longrightarrow> resolved g unknown \<Longrightarrow>
   resolved g' unknown' \<and> frame g g'"
proof (induction unknown g arbitrary: g' unknown' rule: fixed_loop.induct)
  case (1 unknown g)
  show ?case
  proof (cases "unknown = []")
    case True
    then show ?thesis using "1.prems" by (simp add: fixed_loop.simps frame_refl)
  next
    case False
    from "1.prems"(1) False obtain g1 r where fp: "fixed_pass unknown unknown g = Inr (g1, r)"
      by (subst (asm) fixed_loop.simps) (auto split: sum.splits)
    note p = fixed_pass_props[OF fp]
    show ?thesis
    proof (cases r)
      case None
      then have "g' = g1" "unknown' = unknown" "g1 = g"
        using "1.prems"(1) False fp p by (simp_all add: fixed_loop.simps)
      then show ?thesis using "1.prems"(2) by (simp add: frame_refl)
    next
      case (Some n)
      then have fl: "fixed_loop (removeAll n unknown) g1 = Inr (g', unknown')"
        using "1.prems"(1) False fp by (simp add: fixed_loop.simps)
      from p Some obtain k where k: "getitem g n = Inr k" "known_dist (node g1 k) \<noteq> None"
        "\<forall>k'. k' \<noteq> k \<longrightarrow> known_dist (node g1 k') = known_dist (node g k')" by blast
      have fr: "frame g g1" using p by blast
      have r1: "resolved g1 (removeAll n unknown)"
        unfolding resolved_def
      proof (intro ballI impI)
        fix k0 assume k0: "k0 \<in> set (keys g1)" "\<exists>t. k0 = Tup t" "k0 \<notin> set (removeAll n unknown)"
        show "known_dist (node g1 k0) \<noteq> None"
        proof (cases "k0 = k")
          case True then show ?thesis using k(2) by simp
        next
          case False
          then have "k0 \<noteq> n" using k(1) k0(2) getitem_Tup by blast
          then have "k0 \<notin> set unknown" using k0(3) by simp
          moreover have "k0 \<in> set (keys g)" using k0(1) fr by (simp add: frame_def)
          ultimately have "known_dist (node g k0) \<noteq> None"
            using "1.prems"(2) k0(2) unfolding resolved_def by blast
          then show ?thesis using k(3) False by simp
        qed
      qed
      from "1.IH"[OF False fp refl Some fl r1] show ?thesis using frame_trans[OF fr] by blast
    qed
  qed
qed


lemma stretch_node_props:
  assumes "stretch_node rlim n g = Some (Inr g')"
  shows "frame g g' \<and> (\<exists>k. getitem g n = Inr k \<and> known_dist (node g' k) \<noteq> None \<and>
           (\<forall>k'. k' \<noteq> k \<longrightarrow> known_dist (node g' k') = known_dist (node g k')))"
proof -
  from assms obtain k g1 g2 v where k: "getitem g n = Inr k"
    and s1: "longest_path_to_known rlim k True g = Inr g1"
    and s2: "longest_path_to_known rlim k False g1 = Inr g2"
    and g': "g' = upd k (\<lambda>x. x\<lparr>known_dist := Some v\<rparr>) g2"
    unfolding stretch_node_def by (auto split: sum.splits option.splits prod.splits)
  have s: "same g g2"
    using same_trans[OF same_longest_path_to_known[OF s1] same_longest_path_to_known[OF s2]] .
  have "frame g g'" unfolding g' using frame_trans[OF same_frame[OF s] frame_upd] .
  moreover have "known_dist (node g' k) \<noteq> None" unfolding g' by (simp add: upd_def)
  moreover have "\<forall>k'. k' \<noteq> k \<longrightarrow> known_dist (node g' k') = known_dist (node g k')"
    unfolding g' using s by (simp add: upd_def same_def)
  ultimately show ?thesis using k by blast
qed

lemma stretch_all_props:
  "stretch_all rlim ns g = Some (Inr g') \<Longrightarrow>
   frame g g' \<and>
   (\<forall>k. known_dist (node g k) \<noteq> None \<longrightarrow> known_dist (node g' k) \<noteq> None) \<and>
   (\<forall>t. Tup t \<in> set ns \<longrightarrow> known_dist (node g' (Tup t)) \<noteq> None)"
proof (induction ns arbitrary: g)
  case Nil
  then show ?case by (simp add: frame_refl)
next
  case (Cons n ns)
  from Cons.prems obtain g1 where g1: "stretch_node rlim n g = Some (Inr g1)"
    "stretch_all rlim ns g1 = Some (Inr g')"
    by (auto split: option.splits sum.splits)
  from stretch_node_props[OF g1(1)] obtain k where fr: "frame g g1"
    and k: "getitem g n = Inr k" "known_dist (node g1 k) \<noteq> None"
      "\<forall>k'. k' \<noteq> k \<longrightarrow> known_dist (node g1 k') = known_dist (node g k')" by blast
  note ih = Cons.IH[OF g1(2)]
  have mono1: "\<forall>k0. known_dist (node g k0) \<noteq> None \<longrightarrow> known_dist (node g1 k0) \<noteq> None"
    using k(2,3) by metis
  have a: "frame g g'" using frame_trans[OF fr] ih by blast
  have b: "\<forall>k0. known_dist (node g k0) \<noteq> None \<longrightarrow> known_dist (node g' k0) \<noteq> None"
    using mono1 ih by blast
  have c: "\<forall>t. Tup t \<in> set (n # ns) \<longrightarrow> known_dist (node g' (Tup t)) \<noteq> None"
  proof (intro allI impI)
    fix t assume "Tup t \<in> set (n # ns)"
    then consider "n = Tup t" | "Tup t \<in> set ns" by auto
    then show "known_dist (node g' (Tup t)) \<noteq> None"
    proof cases
      case 1
      then have "k = Tup t" using k(1) getitem_Tup by blast
      then show ?thesis using k(2) ih by blast
    next
      case 2
      then show ?thesis using ih by blast
    qed
  qed
  show ?case using a b c by blast
qed

lemma frame_add_edges: "frame g (add_edges a b s st g)"
  by (simp add: frame_def add_edges_def upd_def Let_def)

lemma frame_start_end_edges: "frame g (start_end_edges s e n g)"
  by (simp add: start_end_edges_def Let_def frame_add_edges frame_refl frame_trans[OF frame_add_edges frame_add_edges])

lemma frame_fold_start_end: "frame g (fold (start_end_edges s e) ns g)"
proof (induction ns arbitrary: g)
  case Nil
  show ?case by (simp add: frame_refl)
next
  case (Cons n ns)
  from frame_trans[OF frame_start_end_edges Cons[of "start_end_edges s e n g"]] show ?case by simp
qed

lemma add_node_keys:
  assumes "add_node n g = Inr (g', k)"
  shows "cnodes g' = cnodes g \<and> name g' = name g \<and> set (keys g') = insert n (set (keys g))"
  using assms by (auto simp: add_node_def Let_def split: sum.splits if_splits)

lemma add_start_nodes_keys:
  assumes "add_start_nodes g0 = Inr ga"
  shows "cnodes ga = cnodes g0 \<and> name ga = name g0 \<and>
         (\<forall>t. Tup t \<in> set (keys ga) \<longleftrightarrow> Tup t \<in> set (keys g0))"
proof (cases "Str ''start'' \<in> set (keys g0)")
  case True
  then show ?thesis using assms by (simp add: add_start_nodes_def)
next
  case False
  from assms False obtain g1 s g2 e where
    1: "add_node (Str ''start'') g0 = Inr (g1, s)" and
    2: "add_node (Str ''end'') g1 = Inr (g2, e)" and
    3: "ga = fold (start_end_edges s e) (keys g0) g2"
    by (auto simp: add_start_nodes_def Let_def split: sum.splits)
  have "frame g2 ga" unfolding 3 by (rule frame_fold_start_end)
  then show ?thesis using add_node_keys[OF 1] add_node_keys[OF 2] by (auto simp: frame_def)
qed

lemma extract_positions_props:
  assumes "extract_positions g = Inr (pos, dmax)"
  shows "(\<forall>(n, t)\<in>set (cnodes g). Tup t \<in> set (keys g)) \<and>
         pos = map (\<lambda>(n, t). (n, known_dist (node g (Tup t)))) (cnodes g)"
  using assms by (auto simp: extract_positions_def split: if_splits sum.splits)

lemma extract_positions_unattached:
  assumes "(n, t) \<in> set (cnodes g)" "Tup t \<notin> set (keys g)"
  shows "extract_positions g = Inl (Unattached (name g) (keys g))"
  using assms by (auto simp: extract_positions_def)


text \<open>
  C4, as the claim states it: the error for an unattached component names the unresolved
  group. With the one edge \<open>a \<rightarrow> b\<close> and a third name \<open>c\<close> that no edge mentions, the error carries
  the name of the graph and the nodes that the graph holds; the group of \<open>c\<close> is not a node
  of the graph and is not among them.
\<close>

theorem unattached_not_named_counterexample:
  "layout 1000 ''horizontal'' [''a'', ''b'', ''c''] [] [(''a'', ''b'', 1, False)] =
   Some (Inl (Unattached ''horizontal'' [Tup [''a''], Tup [''b''], Str ''start'', Str ''end''])) \<and>
   Tup [''c''] \<notin> set [Tup [''a''], Tup [''b''], Str ''start'', Str ''end'']"
  by (simp add: eval_defs)

text \<open>
  C4, amended. When \<^verbatim>\<open>analyse\<close> returns positions, every name of the common nodes has one,
  none of them is \<^verbatim>\<open>None\<close>, and either every group is a node of the graph or the graph has no
  node of a group at all (the early return, with 0 everywhere). When the three passes have
  run and some group is not a node of the graph, \<^verbatim>\<open>analyse\<close> raises the error for an unattached
  component, with the name of the graph and the nodes of the graph, among which that group
  is not.
\<close>

theorem unattached_raised_no_unresolved_returned:
  "(analyse rlim None g0 = Some (Inr (Some (pos, dmax))) \<longrightarrow>
      (\<forall>(n, v)\<in>set pos. v \<noteq> None) \<and> map fst pos = map fst (cnodes g0) \<and>
      ((\<forall>(n, t)\<in>set (cnodes g0). Tup t \<in> set (keys g0)) \<or> (\<forall>t. Tup t \<notin> set (keys g0)))) \<and>
   (add_start_nodes g0 = Inr ga \<and>
    filter (\<lambda>k. k \<noteq> Str ''start'' \<and> k \<noteq> Str ''end'') (keys ga) \<noteq> [] \<and>
    getitem ga (Str ''start'') = Inr s \<and>
    longest_forward_path rlim s ga = Inr gb \<and>
    getitem gb (Str ''end'') = Inr e \<and>
    walk_back e (filter (\<lambda>k. k \<noteq> Str ''start'' \<and> k \<noteq> Str ''end'') (keys ga)) gb = Some (Inr (gc, unknown2)) \<and>
    fixed_loop unknown2 gc = Inr (gd, unknown3) \<and>
    stretch_all rlim unknown3 gd = Some (Inr g4) \<and>
    (m, u) \<in> set (cnodes g0) \<and> Tup u \<notin> set (keys g0) \<longrightarrow>
      analyse rlim None g0 = Some (Inl (Unattached (name g0) (keys ga))) \<and>
      Tup u \<notin> set (keys ga))"
proof (intro conjI impI)
  assume h: "analyse rlim None g0 = Some (Inr (Some (pos, dmax)))"
  from h obtain ga' where ga: "add_start_nodes g0 = Inr ga'"
    by (cases "add_start_nodes g0") (simp_all add: analyse_def)
  note kk = add_start_nodes_keys[OF ga]
  let ?u = "filter (\<lambda>k. k \<noteq> Str ''start'' \<and> k \<noteq> Str ''end'') (keys ga')"
  have goal: "(\<forall>(n, v)\<in>set pos. v \<noteq> None) \<and> map fst pos = map fst (cnodes g0) \<and>
      ((\<forall>(n, t)\<in>set (cnodes g0). Tup t \<in> set (keys g0)) \<or> (\<forall>t. Tup t \<notin> set (keys g0)))"
  proof (cases "?u = []")
    case True
    then have p: "pos = map (\<lambda>(n, t). (n, Some 0)) (cnodes ga')"
      using h ga by (auto simp: analyse_def Let_def)
    have "\<forall>t. Tup t \<notin> set (keys ga')"
    proof
      fix t show "Tup t \<notin> set (keys ga')"
      proof
        assume "Tup t \<in> set (keys ga')"
        then have "Tup t \<in> set ?u" by simp
        then show False using True by simp
      qed
    qed
    then have "\<forall>t. Tup t \<notin> set (keys g0)" using kk by blast
    moreover have "\<forall>(n, v)\<in>set pos. v \<noteq> None" unfolding p by auto
    moreover have "map fst pos = map fst (cnodes g0)" unfolding p using kk by (simp add: case_prod_unfold)
    ultimately show ?thesis by blast
  next
    case False
    from h ga False obtain s' gb' e' gc' u2 gd' u3 g4' where
      st: "getitem ga' (Str ''start'') = Inr s'" "longest_forward_path rlim s' ga' = Inr gb'"
        "getitem gb' (Str ''end'') = Inr e'" "walk_back e' ?u gb' = Some (Inr (gc', u2))"
        "fixed_loop u2 gc' = Inr (gd', u3)" "stretch_all rlim u3 gd' = Some (Inr g4')"
        "extract_positions g4' = Inr (pos, dmax)"
      by (auto simp: analyse_def Let_def split: sum.splits option.splits prod.splits)
    have r0: "resolved ga' ?u" by (auto simp: resolved_def)
    have sb: "same ga' gb'" using same_longest_forward_path[OF st(2)] .
    then have rb: "resolved gb' ?u" using r0 by (simp add: resolved_def same_def)
    from walk_back_resolved[OF st(4)] rb have rc: "resolved gc' u2" and fc: "frame gb' gc'" by blast+
    from fixed_loop_resolved[OF st(5) rc] have rd: "resolved gd' u3" and fd: "frame gc' gd'" by blast+
    note sa = stretch_all_props[OF st(6)]
    have f4: "frame ga' g4'"
      using frame_trans[OF same_frame[OF sb] frame_trans[OF fc frame_trans[OF fd]]] sa by blast
    have known: "known_dist (node g4' (Tup t)) \<noteq> None" if "Tup t \<in> set (keys g4')" for t
    proof (cases "Tup t \<in> set u3")
      case True then show ?thesis using sa by blast
    next
      case False
      have "Tup t \<in> set (keys gd')" using that sa by (simp add: frame_def)
      then have "known_dist (node gd' (Tup t)) \<noteq> None" using rd False unfolding resolved_def by blast
      then show ?thesis using sa by blast
    qed
    note ex = extract_positions_props[OF st(7)]
    have c4: "cnodes g4' = cnodes g0" "keys g4' = keys ga'" using f4 kk by (simp_all add: frame_def)
    have 1: "\<forall>(n, v)\<in>set pos. v \<noteq> None" using ex known by auto
    have 2: "map fst pos = map fst (cnodes g0)" using ex c4 by (simp add: case_prod_unfold)
    have 3: "\<forall>(n, t)\<in>set (cnodes g0). Tup t \<in> set (keys g0)" using ex c4 kk by auto
    show ?thesis using 1 2 3 by blast
  qed
  show "\<forall>(n, v)\<in>set pos. v \<noteq> None" using goal by blast
  show "map fst pos = map fst (cnodes g0)" using goal by blast
  show "(\<forall>(n, t)\<in>set (cnodes g0). Tup t \<in> set (keys g0)) \<or> (\<forall>t. Tup t \<notin> set (keys g0))"
    using goal by blast
next
  assume a: "add_start_nodes g0 = Inr ga \<and>
    filter (\<lambda>k. k \<noteq> Str ''start'' \<and> k \<noteq> Str ''end'') (keys ga) \<noteq> [] \<and>
    getitem ga (Str ''start'') = Inr s \<and>
    longest_forward_path rlim s ga = Inr gb \<and>
    getitem gb (Str ''end'') = Inr e \<and>
    walk_back e (filter (\<lambda>k. k \<noteq> Str ''start'' \<and> k \<noteq> Str ''end'') (keys ga)) gb = Some (Inr (gc, unknown2)) \<and>
    fixed_loop unknown2 gc = Inr (gd, unknown3) \<and>
    stretch_all rlim unknown3 gd = Some (Inr g4) \<and>
    (m, u) \<in> set (cnodes g0) \<and> Tup u \<notin> set (keys g0)"
  note kk = add_start_nodes_keys[of g0 ga]
  have nk: "Tup u \<notin> set (keys ga)" using a kk by blast
  have sb: "same ga gb" using a same_longest_forward_path by blast
  let ?u = "filter (\<lambda>k. k \<noteq> Str ''start'' \<and> k \<noteq> Str ''end'') (keys ga)"
  have r0: "resolved ga ?u" by (auto simp: resolved_def)
  have rb: "resolved gb ?u" using r0 sb by (simp add: resolved_def same_def)
  have wb: "walk_back e ?u gb = Some (Inr (gc, unknown2))" using a by blast
  from walk_back_resolved[OF wb] rb have rc: "resolved gc unknown2" and fc: "frame gb gc" by blast+
  have fl: "fixed_loop unknown2 gc = Inr (gd, unknown3)" using a by blast
  from fixed_loop_resolved[OF fl rc] have fd: "frame gc gd" by blast
  have sl: "stretch_all rlim unknown3 gd = Some (Inr g4)" using a by blast
  have f4: "frame ga g4"
    using frame_trans[OF same_frame[OF sb] frame_trans[OF fc frame_trans[OF fd]]]
      stretch_all_props[OF sl] by blast
  have ga: "add_start_nodes g0 = Inr ga" using a by blast
  have c4: "cnodes g4 = cnodes g0" "keys g4 = keys ga" "name g4 = name g0"
    using f4 kk[OF ga] by (simp_all add: frame_def)
  have "(m, u) \<in> set (cnodes g4)" "Tup u \<notin> set (keys g4)" using a nk c4 by simp_all
  then have ex: "extract_positions g4 = Inl (Unattached (name g0) (keys ga))"
    using extract_positions_unattached[of m u g4] c4 by simp
  show "Tup u \<notin> set (keys ga)" by (rule nk)
  show "analyse rlim None g0 = Some (Inl (Unattached (name g0) (keys ga)))"
    using a ex by (simp add: analyse_def Let_def)
qed


theorem unattached_raised_no_unresolved_returned_witness:
  "layout 1000 ''horizontal'' [''a'', ''b'', ''c''] [] [(''a'', ''b'', 1, True), (''b'', ''c'', 2, True)] =
     Some (Inr (Some ([(''a'', Some 0), (''b'', Some 1), (''c'', Some 3)], Some 3))) \<and>
   list_all (\<lambda>(n, v). v \<noteq> None) [(''a'', Some (0::rat)), (''b'', Some 1), (''c'', Some 3)] \<and>
   layout 1000 ''horizontal'' [''a'', ''b'', ''c''] [] [(''a'', ''b'', 1, False)] =
     Some (Inl (Unattached ''horizontal'' [Tup [''a''], Tup [''b''], Str ''start'', Str ''end''])) \<and>
   Tup [''c''] \<notin> set [Tup [''a''], Tup [''b''], Str ''start'', Str ''end'']"
proof -
  define S0 where "S0 = (case build ''horizontal'' [''a'', ''b'', ''c''] [] [(''a'', ''b'', 1, True), (''b'', ''c'', 2, True)] of Inr g \<Rightarrow> g)"
  have bs: "build ''horizontal'' [''a'', ''b'', ''c''] [] [(''a'', ''b'', 1, True), (''b'', ''c'', 2, True)] = Inr S0"
    unfolding S0_def by (simp add: eval_defs)
  have hs: "analyse 1000 None S0 = Some (Inr (Some ([(''a'', Some 0), (''b'', Some 1), (''c'', Some 3)], Some 3)))"
    unfolding S0_def by (simp add: eval_defs)
  have 1: "layout 1000 ''horizontal'' [''a'', ''b'', ''c''] [] [(''a'', ''b'', 1, True), (''b'', ''c'', 2, True)] =
     Some (Inr (Some ([(''a'', Some 0), (''b'', Some 1), (''c'', Some 3)], Some 3)))"
    using hs by (simp add: layout_def bs)
  have 2: "\<forall>(n, v)\<in>set [(''a'', Some (0::rat)), (''b'', Some 1), (''c'', Some 3)]. v \<noteq> None"
    using unattached_raised_no_unresolved_returned[of 1000 S0 "[(''a'', Some 0), (''b'', Some 1), (''c'', Some 3)]" "Some 3"] hs by blast
  define G0 where "G0 = (case build ''horizontal'' [''a'', ''b'', ''c''] [] [(''a'', ''b'', 1, False)] of Inr g \<Rightarrow> g)"
  have b: "build ''horizontal'' [''a'', ''b'', ''c''] [] [(''a'', ''b'', 1, False)] = Inr G0"
    unfolding G0_def by (simp add: eval_defs)
  define ga where "ga = (case add_start_nodes G0 of Inr g \<Rightarrow> g)"
  have h1: "add_start_nodes G0 = Inr ga"
    unfolding ga_def G0_def by (simp add: eval_defs)
  have ka: "keys ga = [Tup [''a''], Tup [''b''], Str ''start'', Str ''end'']" "name G0 = ''horizontal''"
    unfolding ga_def G0_def by (simp_all add: eval_defs)
  have ku: "filter (\<lambda>k. k \<noteq> Str ''start'' \<and> k \<noteq> Str ''end'') (keys ga) = [Tup [''a''], Tup [''b'']]"
    unfolding ka by simp
  have h2: "filter (\<lambda>k. k \<noteq> Str ''start'' \<and> k \<noteq> Str ''end'') (keys ga) \<noteq> []"
    unfolding ku by simp
  have h3: "getitem ga (Str ''start'') = Inr (Str ''start'')"
    unfolding ga_def G0_def by (simp add: eval_defs)
  define gb where "gb = (case longest_forward_path 1000 (Str ''start'') ga of Inr g \<Rightarrow> g)"
  have h4: "longest_forward_path 1000 (Str ''start'') ga = Inr gb"
    unfolding gb_def ga_def G0_def by (simp add: eval_defs)
  have h5: "getitem gb (Str ''end'') = Inr (Str ''end'')"
    unfolding gb_def ga_def G0_def by (simp add: eval_defs)
  define gc where "gc = (case walk_back (Str ''end'') [Tup [''a''], Tup [''b'']] gb of Some (Inr (g, u)) \<Rightarrow> g)"
  have h6: "walk_back (Str ''end'') (filter (\<lambda>k. k \<noteq> Str ''start'' \<and> k \<noteq> Str ''end'') (keys ga)) gb = Some (Inr (gc, []))"
    unfolding ku unfolding gc_def gb_def ga_def G0_def by (simp add: eval_defs)
  have h7: "fixed_loop [] gc = Inr (gc, [])" by (simp add: fixed_loop.simps)
  have h8: "stretch_all 1000 [] gc = Some (Inr gc)" by simp
  have h9: "(''c'', [''c'']) \<in> set (cnodes G0)" "Tup [''c''] \<notin> set (keys G0)"
    unfolding G0_def by (simp_all add: eval_defs)
  from unattached_raised_no_unresolved_returned[of 1000 G0 _ _ ga "Str ''start''" gb "Str ''end''" gc "[]" gc "[]" gc "''c''" "[''c'']"]
    h1 h2 h3 h4 h5 h6 h7 h8 h9
  have r: "analyse 1000 None G0 = Some (Inl (Unattached (name G0) (keys ga)))"
    "Tup [''c''] \<notin> set (keys ga)"
    by blast+
  have 3: "layout 1000 ''horizontal'' [''a'', ''b'', ''c''] [] [(''a'', ''b'', 1, False)] =
     Some (Inl (Unattached ''horizontal'' [Tup [''a''], Tup [''b''], Str ''start'', Str ''end'']))"
    using r(1) by (simp add: layout_def b ka)
  have 4: "Tup [''c''] \<notin> set [Tup [''a''], Tup [''b''], Str ''start'', Str ''end'']" using r(2) unfolding ka .
  have la: "list_all (\<lambda>(n, v). v \<noteq> None) [(''a'', Some (0::rat)), (''b'', Some 1), (''c'', Some 3)]"
    using 2 unfolding list_all_iff .
  show ?thesis using 1 la 3 4 by blast
qed

end
